theory Spec2Isabelle
  imports Main "HOL-Library.Sublist"
begin

section \<open>Data model: points, positions, nodes, options, diagnostics\<close>

text \<open>
  The five rules of the repository (\<^verbatim>\<open>code-block-style\<close>, \<^verbatim>\<open>blockquote-indentation\<close>,
  \<^verbatim>\<open>maximum-heading-length\<close>, \<^verbatim>\<open>no-duplicate-headings\<close>, \<^verbatim>\<open>checkbox-content-indent\<close>)
  are embedded as functions from a tree, the source text and an option to the list of
  messages the rule appends to the file.

  A JavaScript string is a list of code units; the model uses HOL's \<open>string\<close>, whose
  characters are the code units below 256. In a point, the line and the column are natural
  numbers and \<open>0\<close> stands for every falsy value (absent, \<^verbatim>\<open>null\<close>, \<^verbatim>\<open>0\<close>): the library
  functions the rules call only ever test these fields for truthiness. An absent offset is
  \<open>None\<close>.
\<close>

record point =
  line :: nat
  column :: nat
  offset :: "nat option"

record position =
  pstart :: point
  pend :: point

text \<open>
  A node of the tree: its \<^verbatim>\<open>type\<close>, its optional \<^verbatim>\<open>position\<close>, its \<^verbatim>\<open>children\<close> (empty for
  a literal), and the fields the rules read: \<^verbatim>\<open>value\<close> and \<^verbatim>\<open>alt\<close> (the empty string when
  absent: both are only tested for truthiness), \<^verbatim>\<open>lang\<close> of a code block and \<^verbatim>\<open>checked\<close>
  of a list item (\<open>None\<close> when it is not a boolean).
\<close>

datatype node =
  Node (node_type: string) (node_position: "position option") (node_children: "node list")
    (node_value: string) (node_alt: string) (node_lang: "string option")
    (node_checked: "bool option")

text \<open>
  A JavaScript number that is an integer, \<^verbatim>\<open>NaN\<close>, \<^verbatim>\<open>Infinity\<close> or \<^verbatim>\<open>-Infinity\<close>. Fractions
  are outside the model: their arithmetic and their printing are those of binary floating
  point. The integers of the model are unbounded and their arithmetic and printing are
  exact. JavaScript computes and prints exactly the integers up to \<open>2\<^sup>5\<^sup>3\<close> in magnitude
  and rounds beyond; the sum or the difference of two integers up to \<open>2\<^sup>5\<^sup>2\<close> in magnitude
  (\<open>exact\<close>) stays in that range. What is stated below about a fixed integer indentation
  (C2) is stated within this range.
\<close>

datatype number = Finite int | NaN | Infinity | MinusInfinity

definition exact :: "int \<Rightarrow> bool" where
  "exact i = (\<bar>i\<bar> \<le> 2 ^ 52)"

text \<open>The option a rule is called with: \<^verbatim>\<open>undefined\<close>, a string, a number, or anything else.\<close>

datatype setting = Undefined | Str string | Number number | Other

abbreviation Num :: "int \<Rightarrow> setting" where
  "Num k \<equiv> Number (Finite k)"

text \<open>
  Modelled from the spec: the Diagnostic Reporter (section 4.5), which is the file object
  of the package \<^verbatim>\<open>vfile\<close> and not part of the sources. \<^verbatim>\<open>file.message(reason, place)\<close>
  appends a message in call order; the place is a node, a position or a point.
  \<^verbatim>\<open>file.fail(reason)\<close> appends a message without a place, marks it fatal and stops the rule
  by throwing it.
\<close>

datatype place = AtNode node | AtPosition position | AtPoint point | NoPlace

record diagnostic =
  reason :: string
  place :: place
  fatal :: bool

definition message :: "string \<Rightarrow> place \<Rightarrow> diagnostic" where
  "message r p = \<lparr>reason = r, place = p, fatal = False\<rparr>"

definition fail :: "string \<Rightarrow> diagnostic" where
  "fail r = \<lparr>reason = r, place = NoPlace, fatal = True\<rparr>"

text \<open>
  A rule either throws the fatal message of \<^verbatim>\<open>file.fail\<close> (\<open>Inl\<close>) or returns, having
  appended its messages (\<open>Inr\<close>); \<open>messages_of\<close> is the file's message list afterwards.
\<close>

definition messages_of :: "diagnostic + diagnostic list \<Rightarrow> diagnostic list" where
  "messages_of r = (case r of Inl d \<Rightarrow> [d] | Inr ds \<Rightarrow> ds)"

section \<open>Library functions the rules call\<close>

text \<open>
  The rules import their helpers from packages outside the sources. The tree walker and
  the position resolver are components of the specification and are modelled from it; the
  others are built-in string operations and small packages, modelled by what they return
  on the values the rules pass.
\<close>

subsection \<open>Numbers and strings\<close>

text \<open>
  \<^verbatim>\<open>String(n)\<close> of an integer, in decimal (JavaScript prints the integers below \<open>10\<^sup>2\<^sup>1\<close> so,
  larger ones with an exponent).
\<close>

fun show_nat :: "nat \<Rightarrow> string" where
  "show_nat n =
     (if n < 10 then [''0123456789'' ! n]
      else show_nat (n div 10) @ [''0123456789'' ! (n mod 10)])"

declare show_nat.simps [simp del]

definition show_int :: "int \<Rightarrow> string" where
  "show_int i = (if i < 0 then CHR ''-'' # show_nat (nat (- i)) else show_nat (nat i))"

definition show_number :: "number \<Rightarrow> string" where
  "show_number x =
     (case x of
        Finite i \<Rightarrow> show_int i
      | NaN \<Rightarrow> ''NaN''
      | Infinity \<Rightarrow> ''Infinity''
      | MinusInfinity \<Rightarrow> ''-Infinity'')"

text \<open>
  The comparison \<^verbatim>\<open>n > x\<close> of an integer with a number: it is false when \<^verbatim>\<open>x\<close> is \<^verbatim>\<open>NaN\<close>.
\<close>

definition exceeds :: "int \<Rightarrow> number \<Rightarrow> bool" where
  "exceeds n x =
     (case x of
        Finite i \<Rightarrow> n > i
      | NaN \<Rightarrow> False
      | Infinity \<Rightarrow> False
      | MinusInfinity \<Rightarrow> True)"

text \<open>A number or \<^verbatim>\<open>null\<close> used in arithmetic: \<^verbatim>\<open>null\<close> counts as 0.\<close>

definition num :: "nat option \<Rightarrow> int" where
  "num v = (case v of None \<Rightarrow> 0 | Some k \<Rightarrow> int k)"

text \<open>
  \<^verbatim>\<open>s.slice(b, e)\<close>: a negative index counts from the end of the string, and both indices
  are clamped to the string.
\<close>

definition slice :: "string \<Rightarrow> int \<Rightarrow> int \<Rightarrow> string" where
  "slice s b e =
     (let len = int (length s);
          lo = (if b < 0 then max (len + b) 0 else min b len);
          hi = (if e < 0 then max (len + e) 0 else min e len)
      in take (nat (hi - lo)) (drop (nat lo) s))"

text \<open>The class \<^verbatim>\<open>\s\<close> of a regular expression, on the code units below 256.\<close>

definition is_space :: "char \<Rightarrow> bool" where
  "is_space c = (c \<in> {CHR 0x09, CHR 0x0A, CHR 0x0B, CHR 0x0C, CHR 0x0D, CHR 0x20, CHR 0xA0})"

text \<open>The class \<^verbatim>\<open>[\t ]\<close>.\<close>

definition is_blank :: "char \<Rightarrow> bool" where
  "is_blank c = (c = CHR 0x09 \<or> c = CHR 0x20)"

text \<open>
  \<^verbatim>\<open>s.toUpperCase()\<close>, on the code units below 256. The small letters with a capital among
  them are a to z and the small letters of Latin-1, \<open>0xE0\<close> to \<open>0xFE\<close> without the division
  sign \<open>0xF7\<close>; the capital is \<open>0x20\<close> below the small letter. The sharp s (\<open>0xDF\<close>) becomes
  the two letters \<^verbatim>\<open>SS\<close>. Every other character is unchanged by JavaScript, but for two: the
  capitals of the micro sign (\<open>0xB5\<close>) and of the y with diaeresis (\<open>0xFF\<close>) are code units
  above 255. No other character below 256 has either of them as its capital, and the rule
  that calls \<^verbatim>\<open>toUpperCase\<close> only compares its results with each other; the model leaves
  both characters as they are, so that two texts have the same upper-case form in the
  model exactly when they have in JavaScript.
\<close>

definition latin_small :: string where
  "latin_small =
     [CHR 0xE0, CHR 0xE1, CHR 0xE2, CHR 0xE3, CHR 0xE4, CHR 0xE5, CHR 0xE6, CHR 0xE7,
      CHR 0xE8, CHR 0xE9, CHR 0xEA, CHR 0xEB, CHR 0xEC, CHR 0xED, CHR 0xEE, CHR 0xEF,
      CHR 0xF0, CHR 0xF1, CHR 0xF2, CHR 0xF3, CHR 0xF4, CHR 0xF5, CHR 0xF6,
      CHR 0xF8, CHR 0xF9, CHR 0xFA, CHR 0xFB, CHR 0xFC, CHR 0xFD, CHR 0xFE]"

definition latin_capital :: string where
  "latin_capital =
     [CHR 0xC0, CHR 0xC1, CHR 0xC2, CHR 0xC3, CHR 0xC4, CHR 0xC5, CHR 0xC6, CHR 0xC7,
      CHR 0xC8, CHR 0xC9, CHR 0xCA, CHR 0xCB, CHR 0xCC, CHR 0xCD, CHR 0xCE, CHR 0xCF,
      CHR 0xD0, CHR 0xD1, CHR 0xD2, CHR 0xD3, CHR 0xD4, CHR 0xD5, CHR 0xD6,
      CHR 0xD8, CHR 0xD9, CHR 0xDA, CHR 0xDB, CHR 0xDC, CHR 0xDD, CHR 0xDE]"

definition letters :: "(char \<times> char) list" where
  "letters = zip (''abcdefghijklmnopqrstuvwxyz'' @ latin_small)
                 (''ABCDEFGHIJKLMNOPQRSTUVWXYZ'' @ latin_capital)"

definition upper_char :: "char \<Rightarrow> char" where
  "upper_char c = (case map_of letters c of Some u \<Rightarrow> u | None \<Rightarrow> c)"

definition sharp_s :: char where
  "sharp_s = CHR 0xDF"

definition upper_chars :: "char \<Rightarrow> string" where
  "upper_chars c = (if c = sharp_s then ''SS'' else [upper_char c])"

definition toUpperCase :: "string \<Rightarrow> string" where
  "toUpperCase s = concat (map upper_chars s)"

text \<open>\<^verbatim>\<open>plural(word, count)\<close> of the package \<^verbatim>\<open>pluralize\<close>, for the one word the rules pass.\<close>

definition plural :: "string \<Rightarrow> nat \<Rightarrow> string" where
  "plural word count = (if count = 1 then word else word @ ''s'')"

subsection \<open>Positions\<close>

definition null_point :: point where
  "null_point = \<lparr>line = 0, column = 0, offset = None\<rparr>"

text \<open>
  \<^verbatim>\<open>pointStart\<close> and \<^verbatim>\<open>pointEnd\<close> of \<^verbatim>\<open>unist-util-position\<close>: the point of the node's
  position, or a point of \<^verbatim>\<open>null\<close>s when the node (or its position) is absent.
\<close>

definition pointStart :: "node \<Rightarrow> point" where
  "pointStart n = (case node_position n of None \<Rightarrow> null_point | Some p \<Rightarrow> pstart p)"

definition pointEnd :: "node \<Rightarrow> point" where
  "pointEnd n = (case node_position n of None \<Rightarrow> null_point | Some p \<Rightarrow> pend p)"

text \<open>
  \<^verbatim>\<open>generated(node)\<close> of the package \<^verbatim>\<open>unist-util-generated\<close>, the test every rule calls on
  the node it visits: the node has no position, or the start or the end of its position
  has no line or no column. The function is given the node alone and reads neither the
  offsets nor the source text.
\<close>

definition generated :: "node \<Rightarrow> bool" where
  "generated n =
     (case node_position n of
        None \<Rightarrow> True
      | Some p \<Rightarrow> line (pstart p) = 0 \<or> column (pstart p) = 0 \<or>
                  line (pend p) = 0 \<or> column (pend p) = 0)"

text \<open>
  \<^verbatim>\<open>stringifyPosition\<close> of a point: \<^verbatim>\<open>line:column\<close>, where a missing line or column is
  printed as 1.
\<close>

definition index_str :: "nat \<Rightarrow> string" where
  "index_str v = show_nat (if v = 0 then 1 else v)"

definition stringifyPosition :: "point \<Rightarrow> string" where
  "stringifyPosition p = index_str (line p) @ '':'' @ index_str (column p)"

text \<open>
  Modelled from the spec: the Position Resolver (section 4.1), imported as
  \<^verbatim>\<open>location(file).toPoint(offset)\<close> from the package \<^verbatim>\<open>vfile-location\<close>. An index is built
  once over the line endings: it holds the offset just past every line ending (\<^verbatim>\<open>\r\n\<close>,
  \<^verbatim>\<open>\n\<close> or \<^verbatim>\<open>\r\<close>) and, last, the length of the text plus one. The point of an offset is
  found by walking the index to its first entry above the offset, and its offset is the
  argument as it was given. An offset beyond the text fails: the point has no fields.
\<close>

fun line_indices :: "nat \<Rightarrow> string \<Rightarrow> nat list" where
  "line_indices i [] = []"
| "line_indices i [c] = (if c = CHR 0x0A \<or> c = CHR 0x0D then [i + 1] else [])"
| "line_indices i (c # d # cs) =
     (if c = CHR 0x0D \<and> d = CHR 0x0A then (i + 2) # line_indices (i + 2) cs
      else if c = CHR 0x0A \<or> c = CHR 0x0D then (i + 1) # line_indices (i + 1) (d # cs)
      else line_indices (i + 1) (d # cs))"

definition toPoint :: "string \<Rightarrow> nat option \<Rightarrow> point" where
  "toPoint v off =
     (let indices = line_indices 0 v @ [length v + 1]
      in if num off < int (last indices) then
           (let passed = takeWhile (\<lambda>i. int i \<le> num off) indices
            in \<lparr>line = length passed + 1,
                column = nat (num off) - (if passed = [] then 0 else last passed) + 1,
                offset = off\<rparr>)
         else null_point)"

subsection \<open>Traversal and plain text\<close>

text \<open>
  Modelled from the spec: the Tree Walker (section 4.3), imported as
  \<^verbatim>\<open>visit(tree, type, visitor)\<close> from the package \<^verbatim>\<open>unist-util-visit\<close>. It calls the visitor on
  every node of the given type, the root included, depth first and parents before
  children, and does no filtering. None of the visitors of the five rules returns a value,
  so the traversal never skips or stops: the nodes visited are this list, in this order.
\<close>

fun visit :: "node \<Rightarrow> string \<Rightarrow> node list" where
  "visit (Node t p cs v a l c) test =
     (if t = test then [Node t p cs v a l c] else []) @ concat (map (\<lambda>ch. visit ch test) cs)"

text \<open>
  \<^verbatim>\<open>toString(node)\<close> of \<^verbatim>\<open>mdast-util-to-string\<close>: the node's value, else its alternative
  text, else the texts of its children joined.
\<close>

fun toString :: "node \<Rightarrow> string" where
  "toString (Node t p cs v a l c) =
     (if v \<noteq> [] then v else if a \<noteq> [] then a else concat (map toString cs))"

section \<open>The rules\<close>

subsection \<open>code-block-style\<close>

text \<open>
  The table \<^verbatim>\<open>styles = {null: true, fenced: true, indented: true}\<close>, read at the key
  \<^verbatim>\<open>String(preferred)\<close>: the lookup is \<^verbatim>\<open>true\<close> at these three keys only.
\<close>

definition string_of :: "string option \<Rightarrow> string" where
  "string_of preferred = (case preferred of None \<Rightarrow> ''null'' | Some s \<Rightarrow> s)"

definition styles :: "string option \<Rightarrow> bool" where
  "styles preferred = (string_of preferred \<in> {''null'', ''fenced'', ''indented''})"

text \<open>
  The test \<^verbatim>\<open>/^\s*([~`])\1{2,}/\<close>: after the leading white space, a tilde or a backtick
  and at least two more of the same character.
\<close>

definition fence_test :: "string \<Rightarrow> bool" where
  "fence_test s =
     (case dropWhile is_space s of
        c # c1 # c2 # _ \<Rightarrow> (c = CHR ''~'' \<or> c = CHR 0x60) \<and> c1 = c \<and> c2 = c
      | _ \<Rightarrow> False)"

definition current_style :: "string \<Rightarrow> node \<Rightarrow> string" where
  "current_style v n =
     (let initial = offset (pointStart n);
          final = offset (pointEnd n)
      in if (case node_lang n of None \<Rightarrow> False | Some l \<Rightarrow> l \<noteq> []) \<or>
            fence_test (slice v (num initial) (num final))
         then ''fenced'' else ''indented'')"

text \<open>
  The visitor, on the state it mutates: the variable \<^verbatim>\<open>preferred\<close> (a string or \<^verbatim>\<open>null\<close>,
  tested for truthiness) and the messages of the file.
\<close>

definition style_message :: "string \<Rightarrow> node \<Rightarrow> diagnostic" where
  "style_message preferred n = message (''Code blocks should be '' @ preferred) (AtNode n)"

fun code_visitor ::
  "string \<Rightarrow> node \<Rightarrow> string option \<times> diagnostic list \<Rightarrow> string option \<times> diagnostic list" where
  "code_visitor v n (preferred, msgs) =
     (if generated n then (preferred, msgs)
      else
        let current = current_style v n in
        (case preferred of
           None \<Rightarrow> (Some current, msgs)
         | Some p \<Rightarrow>
             if p = [] then (Some current, msgs)
             else if p \<noteq> current
               then (preferred, msgs @ [style_message p n])
               else (preferred, msgs)))"

text \<open>
  The reason of the configuration error; \<^verbatim>\<open>preferred\<close> is printed as \<^verbatim>\<open>String(preferred)\<close>.
\<close>

definition incorrect_style :: "string option \<Rightarrow> string" where
  "incorrect_style preferred =
     ''Incorrect code block style `'' @ string_of preferred @
     ''`: use either `'consistent'`, `'fenced'`, or `'indented'`''"

definition codeBlockStyle :: "node \<Rightarrow> string \<Rightarrow> setting \<Rightarrow> diagnostic + diagnostic list" where
  "codeBlockStyle tree v option =
     (let preferred = (case option of
                         Str s \<Rightarrow> if s \<noteq> ''consistent'' then Some s else None
                       | _ \<Rightarrow> None)
      in if \<not> styles preferred then Inl (fail (incorrect_style preferred))
         else Inr (snd (fold (code_visitor v) (visit tree ''code'') (preferred, []))))"

subsection \<open>blockquote-indentation\<close>

text \<open>
  \<^verbatim>\<open>check(node)\<close>: the column of the first child minus the column of the node. The first
  child of a node without children is \<^verbatim>\<open>undefined\<close>, whose start is a point of \<^verbatim>\<open>null\<close>s.
\<close>

definition first_child_start :: "node \<Rightarrow> point" where
  "first_child_start n = (case node_children n of [] \<Rightarrow> null_point | c # _ \<Rightarrow> pointStart c)"

definition check :: "node \<Rightarrow> int" where
  "check n = int (column (first_child_start n)) - int (column (pointStart n))"

text \<open>The two columns that \<^verbatim>\<open>check(node)\<close> subtracts are in the range of exact arithmetic.\<close>

definition exact_columns :: "node \<Rightarrow> bool" where
  "exact_columns n =
     (exact (int (column (first_child_start n))) \<and> exact (int (column (pointStart n))))"

text \<open>
  The message when the preferred indentation is an integer: \<^verbatim>\<open>diff\<close> is the preferred
  indentation minus \<^verbatim>\<open>check(node)\<close>, \<^verbatim>\<open>abs\<close> its absolute value. The difference and the
  number printed are those of JavaScript when the preferred indentation and the columns
  are \<open>exact\<close>; beyond, JavaScript rounds the difference.
\<close>

definition indentation_message :: "int \<Rightarrow> node \<Rightarrow> diagnostic" where
  "indentation_message preferred n =
     (let diff = preferred - check n;
          abs = nat \<bar>diff\<bar>
      in message ((if diff > 0 then ''Add'' else ''Remove'') @ '' '' @ show_nat abs @ '' '' @
                  plural ''space'' abs @ '' between block quote and content'')
                 (AtPoint (first_child_start n)))"

text \<open>
  The message when the preferred indentation is an infinity: \<^verbatim>\<open>diff\<close> is that infinity
  whatever the node, \<^verbatim>\<open>abs\<close> is \<^verbatim>\<open>Infinity\<close>, and the word is in the plural.
\<close>

definition unbounded_message :: "bool \<Rightarrow> node \<Rightarrow> diagnostic" where
  "unbounded_message positive n =
     message ((if positive then ''Add'' else ''Remove'') @ '' '' @ show_number Infinity @ '' '' @
              ''spaces'' @ '' between block quote and content'')
             (AtPoint (first_child_start n))"

text \<open>
  The visitor, on the state it mutates: the variable \<^verbatim>\<open>preferred\<close> (a number or \<^verbatim>\<open>null\<close>)
  and the messages of the file. The test \<^verbatim>\<open>if (preferred)\<close> is false for \<^verbatim>\<open>null\<close>, \<^verbatim>\<open>0\<close> and
  \<^verbatim>\<open>NaN\<close>, and the indentation of the node is then recorded; it is true for every other
  number, and \<^verbatim>\<open>diff\<close> is then compared with 0.
\<close>

fun blockquote_visitor ::
  "node \<Rightarrow> number option \<times> diagnostic list \<Rightarrow> number option \<times> diagnostic list" where
  "blockquote_visitor n (preferred, msgs) =
     (if generated n \<or> length (node_children n) = 0 then (preferred, msgs)
      else
        (case preferred of
           None \<Rightarrow> (Some (Finite (check n)), msgs)
         | Some NaN \<Rightarrow> (Some (Finite (check n)), msgs)
         | Some (Finite p) \<Rightarrow>
             if p = 0 then (Some (Finite (check n)), msgs)
             else
               let diff = p - check n in
               if diff \<noteq> 0 then (preferred, msgs @ [indentation_message p n])
               else (preferred, msgs)
         | Some Infinity \<Rightarrow> (preferred, msgs @ [unbounded_message True n])
         | Some MinusInfinity \<Rightarrow> (preferred, msgs @ [unbounded_message False n])))"

definition blockquoteIndentation :: "node \<Rightarrow> setting \<Rightarrow> diagnostic list" where
  "blockquoteIndentation tree option =
     (let preferred = (case option of Number x \<Rightarrow> Some x | _ \<Rightarrow> None)
      in snd (fold blockquote_visitor (visit tree ''blockquote'') (preferred, [])))"

subsection \<open>maximum-heading-length\<close>

definition length_message :: "number \<Rightarrow> node \<Rightarrow> diagnostic" where
  "length_message preferred n =
     message (''Use headings shorter than `'' @ show_number preferred @ ''`'') (AtNode n)"

definition heading_length_visitor ::
  "number \<Rightarrow> node \<Rightarrow> diagnostic list \<Rightarrow> diagnostic list" where
  "heading_length_visitor preferred n msgs =
     (if \<not> generated n \<and> exceeds (int (length (toString n))) preferred
      then msgs @ [length_message preferred n]
      else msgs)"

definition remarkLintMaximumHeadingLength :: "node \<Rightarrow> setting \<Rightarrow> diagnostic list" where
  "remarkLintMaximumHeadingLength tree option =
     (let preferred = (case option of Number x \<Rightarrow> x | _ \<Rightarrow> Finite 60)
      in fold (heading_length_visitor preferred) (visit tree ''heading'') [])"

subsection \<open>no-duplicate-headings\<close>

text \<open>
  The state of the visitor: the object \<^verbatim>\<open>map\<close> (created without a prototype, so it holds
  the keys written to it and no other) and the messages of the file.
\<close>

definition duplicate_message :: "node \<Rightarrow> node \<Rightarrow> diagnostic" where
  "duplicate_message duplicate n =
     message (''Do not use headings with similar content ('' @
              stringifyPosition (pointStart duplicate) @ '')'')
             (AtNode n)"

fun duplicate_visitor ::
  "node \<Rightarrow> (string \<rightharpoonup> node) \<times> diagnostic list \<Rightarrow> (string \<rightharpoonup> node) \<times> diagnostic list" where
  "duplicate_visitor n (seen, msgs) =
     (if \<not> generated n then
        let val = toUpperCase (toString n);
            duplicate = seen val
        in (seen(val \<mapsto> n),
            (case duplicate of
               Some d \<Rightarrow> msgs @ [duplicate_message d n]
             | None \<Rightarrow> msgs))
      else (seen, msgs))"

definition remarkLintNoDuplicateHeadings :: "node \<Rightarrow> diagnostic list" where
  "remarkLintNoDuplicateHeadings tree =
     snd (fold duplicate_visitor (visit tree ''heading'') (Map.empty, []))"

subsection \<open>checkbox-content-indent\<close>

text \<open>The search \<^verbatim>\<open>/\[([\t xX])]/.exec(s)\<close> finds a match or not.\<close>

fun checkbox_match :: "string \<Rightarrow> bool" where
  "checkbox_match (a # b # c # r) =
     ((a = CHR ''['' \<and> b \<in> {CHR 0x09, CHR '' '', CHR ''x'', CHR ''X''} \<and> c = CHR '']'') \<or>
      checkbox_match (b # c # r))"
| "checkbox_match _ = False"

text \<open>
  The offset \<^verbatim>\<open>final\<close> after the loop \<^verbatim>\<open>while (/[\t ]/.test(value.charAt(final))) final++\<close>
  started at \<^verbatim>\<open>initial\<close>: the loop ends at the first character that is no tab or space,
  at the latest at the end of the text. A \<^verbatim>\<open>null\<close> that is never incremented stays \<^verbatim>\<open>null\<close>.
\<close>

definition skip_blanks :: "string \<Rightarrow> nat option \<Rightarrow> nat option" where
  "skip_blanks v initial =
     (let k = length (takeWhile is_blank (drop (nat (num initial)) v))
      in if k = 0 then initial else Some (nat (num initial) + k))"

definition checkbox_message :: "string \<Rightarrow> nat option \<Rightarrow> nat option \<Rightarrow> diagnostic" where
  "checkbox_message v initial final =
     message ''Checkboxes should be followed by a single character''
             (AtPosition \<lparr>pstart = toPoint v initial, pend = toPoint v final\<rparr>)"

text \<open>
  The point after the checkbox: the start of the first child, or the end of an item
  without children.
\<close>

definition content_point :: "node \<Rightarrow> point" where
  "content_point n = (if length (node_children n) = 0 then pointEnd n else first_child_start n)"

definition checkbox_visitor :: "string \<Rightarrow> node \<Rightarrow> diagnostic list \<Rightarrow> diagnostic list" where
  "checkbox_visitor v n msgs =
     (if node_checked n = None \<or> generated n then msgs
      else
        let pt = content_point n in
        if \<not> checkbox_match (slice v (num (offset pt) - 4) (num (offset pt) + 1)) then msgs
        else
          let initial = offset pt;
              final = skip_blanks v initial
          in if num final - num initial > 0 then msgs @ [checkbox_message v initial final]
             else msgs)"

definition remarkLintCheckboxContentIndent :: "node \<Rightarrow> string \<Rightarrow> diagnostic list" where
  "remarkLintCheckboxContentIndent tree v =
     fold (checkbox_visitor v) (visit tree ''listItem'') []"

section \<open>The style inference of the specification\<close>

text \<open>
  The specification describes one engine for the rules with a preferred style. In
  consistent mode it goes through the nodes in document order, records the style of the
  first and reports every later node whose style differs from it; with a fixed style it
  compares every node, the first included. \<open>report\<close> builds the message from the preferred
  style and the node, \<open>extract\<close> is the style of a node.
\<close>

definition consistent_verdicts ::
  "('s \<Rightarrow> node \<Rightarrow> diagnostic) \<Rightarrow> (node \<Rightarrow> 's) \<Rightarrow> node list \<Rightarrow> diagnostic list" where
  "consistent_verdicts report extract ns =
     (case ns of
        [] \<Rightarrow> []
      | n0 # rest \<Rightarrow> map (report (extract n0)) (filter (\<lambda>n. extract n \<noteq> extract n0) rest))"

definition fixed_verdicts ::
  "('s \<Rightarrow> node \<Rightarrow> diagnostic) \<Rightarrow> (node \<Rightarrow> 's) \<Rightarrow> 's \<Rightarrow> node list \<Rightarrow> diagnostic list" where
  "fixed_verdicts report extract preferred ns =
     map (report preferred) (filter (\<lambda>n. extract n \<noteq> preferred) ns)"

section \<open>Duplicate headings, as the specification words them\<close>

text \<open>
  The headings are compared by their text in upper case. A heading is reported when an
  earlier heading has the same text in upper case, and the message names the start of the
  most recent of them. \<open>earlier\<close> holds the headings seen so far, the most recent first.
\<close>

definition normalized :: "node \<Rightarrow> string" where
  "normalized n = toUpperCase (toString n)"

fun duplicate_verdicts :: "node list \<Rightarrow> node list \<Rightarrow> diagnostic list" where
  "duplicate_verdicts earlier [] = []"
| "duplicate_verdicts earlier (n # ns) =
     (case find (\<lambda>m. normalized m = normalized n) earlier of
        None \<Rightarrow> []
      | Some d \<Rightarrow> [duplicate_message d n]) @
     duplicate_verdicts (n # earlier) ns"

text \<open>
  Two texts differ in letter case only: they have the same length, and at every index the
  characters are equal or the small and the capital form of one letter.
\<close>

definition same_letter :: "char \<Rightarrow> char \<Rightarrow> bool" where
  "same_letter c d = (c = d \<or> (c, d) \<in> set letters \<or> (d, c) \<in> set letters)"

definition differ_in_case_only :: "string \<Rightarrow> string \<Rightarrow> bool" where
  "differ_in_case_only s t = list_all2 same_letter s t"

section \<open>Generated nodes, as the specification words them\<close>

text \<open>
  The node classifier of the specification (section 4.2), \<^verbatim>\<open>isGenerated(node)\<close>: a node is
  generated when it lacks a well-formed position, that is when the position, its start or
  its end is missing, or when its offsets are not resolvable in the current source text.
  An offset is resolvable when it is present and at most the length of the text. The test
  \<open>generated\<close> that the rules call has the first clause only.
\<close>

definition resolvable :: "string \<Rightarrow> nat option \<Rightarrow> bool" where
  "resolvable v k = (case k of None \<Rightarrow> False | Some i \<Rightarrow> i \<le> length v)"

definition isGenerated :: "string \<Rightarrow> node \<Rightarrow> bool" where
  "isGenerated v n =
     (generated n \<or> \<not> resolvable v (offset (pointStart n)) \<or>
      \<not> resolvable v (offset (pointEnd n)))"

section \<open>Document order\<close>

text \<open>
  The offset at which a message starts: the start of the node, of the position or the
  point it was given.
\<close>

definition start_offset :: "diagnostic \<Rightarrow> nat option" where
  "start_offset d =
     (case place d of
        AtNode n \<Rightarrow> offset (pointStart n)
      | AtPosition p \<Rightarrow> offset (pstart p)
      | AtPoint p \<Rightarrow> offset p
      | NoPlace \<Rightarrow> None)"

text \<open>
  The start offsets of a list of messages, in the order of the list; a message without an
  offset has none to compare. They are ascending when no message starts before a message
  that was appended earlier.
\<close>

definition mark :: "nat option \<Rightarrow> nat list" where
  "mark k = (case k of None \<Rightarrow> [] | Some i \<Rightarrow> [i])"

definition start_offsets :: "diagnostic list \<Rightarrow> nat list" where
  "start_offsets ds = concat (map (\<lambda>d. mark (start_offset d)) ds)"

definition offsets_ascending :: "diagnostic list \<Rightarrow> bool" where
  "offsets_ascending ds = sorted (start_offsets ds)"

definition located :: "diagnostic list \<Rightarrow> bool" where
  "located ds = (\<forall>d \<in> set ds. start_offset d \<noteq> None)"

text \<open>
  A tree follows the order of its document when the offsets met on a walk through it are
  ascending: the start of a node, then its children from left to right, then its end. A
  node without a position, or a point without an offset, adds nothing to the walk. Such
  is a tree that the parser built from a text, also after nodes without positions were
  added to it. The tree is positioned when every node has a start and an end offset.
\<close>

fun marks :: "node \<Rightarrow> nat list" where
  "marks (Node t p cs v a l c) =
     mark (offset (pointStart (Node t p cs v a l c))) @ concat (map marks cs) @
     mark (offset (pointEnd (Node t p cs v a l c)))"

definition in_document_order :: "node \<Rightarrow> bool" where
  "in_document_order tree = sorted (marks tree)"

fun preorder :: "node \<Rightarrow> node list" where
  "preorder (Node t p cs v a l c) = Node t p cs v a l c # concat (map preorder cs)"

definition positioned :: "node \<Rightarrow> bool" where
  "positioned tree =
     (\<forall>m \<in> set (preorder tree). offset (pointStart m) \<noteq> None \<and> offset (pointEnd m) \<noteq> None)"

section \<open>Example documents\<close>

definition pt :: "nat \<Rightarrow> nat \<Rightarrow> nat \<Rightarrow> point" where
  "pt l c off = \<lparr>line = l, column = c, offset = Some off\<rparr>"

definition pos :: "point \<Rightarrow> point \<Rightarrow> position option" where
  "pos a b = Some \<lparr>pstart = a, pend = b\<rparr>"

definition parent :: "string \<Rightarrow> position option \<Rightarrow> node list \<Rightarrow> node" where
  "parent t p cs = Node t p cs [] [] None None"

definition literal :: "string \<Rightarrow> position option \<Rightarrow> string \<Rightarrow> node" where
  "literal t p val = Node t p [] val [] None None"

definition para :: "position option \<Rightarrow> string \<Rightarrow> node" where
  "para p val = parent ''paragraph'' p [literal ''text'' p val]"

text \<open>
  The rule's own example \<^verbatim>\<open>not-ok-consistent.md\<close>: an indented code block, a paragraph and
  a fenced code block.
\<close>

definition code_text :: string where
  "code_text =
     ''    alpha();'' @ [CHR 0x0A, CHR 0x0A] @ ''Paragraph.'' @ [CHR 0x0A, CHR 0x0A] @
     ''```'' @ [CHR 0x0A] @ ''bravo();'' @ [CHR 0x0A] @ ''```''"

definition code_alpha :: node where
  "code_alpha = literal ''code'' (pos (pt 1 1 0) (pt 1 13 12)) ''alpha();''"

definition code_bravo :: node where
  "code_bravo = literal ''code'' (pos (pt 5 1 26) (pt 7 4 42)) ''bravo();''"

definition code_doc :: node where
  "code_doc =
     parent ''root'' (pos (pt 1 1 0) (pt 7 4 42))
       [code_alpha, para (pos (pt 3 1 14) (pt 3 11 24)) ''Paragraph.'', code_bravo]"

text \<open>
  The example \<^verbatim>\<open>not-ok.md\<close> of blockquote-indentation: three block quotes whose content
  starts 3, 4 and 2 columns after the marker, with paragraphs between them.
\<close>

definition quote_hello :: node where
  "quote_hello =
     parent ''blockquote'' (pos (pt 1 1 0) (pt 1 9 8)) [para (pos (pt 1 4 3) (pt 1 9 8)) ''Hello'']"

definition quote_world :: node where
  "quote_world =
     parent ''blockquote'' (pos (pt 5 1 21) (pt 5 10 30))
       [para (pos (pt 5 5 25) (pt 5 10 30)) ''World'']"

definition quote_last :: node where
  "quote_last =
     parent ''blockquote'' (pos (pt 9 1 44) (pt 9 8 51))
       [para (pos (pt 9 3 46) (pt 9 8 51)) ''World'']"

definition quote_doc :: node where
  "quote_doc =
     parent ''root'' (pos (pt 1 1 0) (pt 9 8 51))
       [quote_hello, para (pos (pt 3 1 9) (pt 3 11 19)) ''Paragraph.'',
        quote_world, para (pos (pt 7 1 32) (pt 7 11 42)) ''Paragraph.'',
        quote_last]"

text \<open>
  A document that starts with an empty block quote (a line with the marker alone), and a
  tree whose first block quote starts in the same column as its content.
\<close>

definition quote_empty :: node where
  "quote_empty = parent ''blockquote'' (pos (pt 1 1 0) (pt 1 2 1)) []"

definition quote_a :: node where
  "quote_a =
     parent ''blockquote'' (pos (pt 3 1 3) (pt 3 4 6)) [para (pos (pt 3 3 5) (pt 3 4 6)) ''a'']"

definition quote_b :: node where
  "quote_b =
     parent ''blockquote'' (pos (pt 5 1 8) (pt 5 5 12)) [para (pos (pt 5 4 11) (pt 5 5 12)) ''b'']"

definition empty_first_doc :: node where
  "empty_first_doc = parent ''root'' (pos (pt 1 1 0) (pt 5 5 12)) [quote_empty, quote_a, quote_b]"

definition quote_flush :: node where
  "quote_flush =
     parent ''blockquote'' (pos (pt 1 1 0) (pt 1 2 1)) [para (pos (pt 1 1 0) (pt 1 2 1)) ''a'']"

definition flush_first_doc :: node where
  "flush_first_doc = parent ''root'' (pos (pt 1 1 0) (pt 5 5 12)) [quote_flush, quote_a, quote_b]"

text \<open>A document of paragraphs only: no node any rule looks for.\<close>

definition plain_doc :: node where
  "plain_doc =
     parent ''root'' (pos (pt 1 1 0) (pt 1 11 10)) [para (pos (pt 1 1 0) (pt 1 11 10)) ''Paragraph.'']"

text \<open>A heading of 52 characters, and a short one.\<close>

definition long_heading :: node where
  "long_heading =
     parent ''heading'' (pos (pt 1 1 0) (pt 1 55 54))
       [literal ''text'' (pos (pt 1 3 2) (pt 1 55 54))
          ''Alpha bravo charlie delta echo foxtrot golf hotel in'']"

definition short_heading :: node where
  "short_heading =
     parent ''heading'' (pos (pt 3 1 56) (pt 3 8 63)) [literal ''text'' (pos (pt 3 3 58) (pt 3 8 63)) ''Alpha'']"

definition heading_doc :: node where
  "heading_doc = parent ''root'' (pos (pt 1 1 0) (pt 3 8 63)) [long_heading, short_heading]"

definition long_heading_doc :: node where
  "long_heading_doc = parent ''root'' (pos (pt 1 1 0) (pt 1 55 54)) [long_heading]"

text \<open>Three headings: \<^verbatim>\<open>Foo\<close>, \<^verbatim>\<open>Foo\<close> and \<^verbatim>\<open>Bar\<close>; and with \<^verbatim>\<open>FOO\<close> as the third.\<close>

definition foo_first :: node where
  "foo_first =
     parent ''heading'' (pos (pt 1 1 0) (pt 1 6 5)) [literal ''text'' (pos (pt 1 3 2) (pt 1 6 5)) ''Foo'']"

definition foo_second :: node where
  "foo_second =
     parent ''heading'' (pos (pt 3 1 7) (pt 3 7 13)) [literal ''text'' (pos (pt 3 4 10) (pt 3 7 13)) ''Foo'']"

definition bar_third :: node where
  "bar_third =
     parent ''heading'' (pos (pt 5 1 15) (pt 5 7 21)) [literal ''text'' (pos (pt 5 4 18) (pt 5 7 21)) ''Bar'']"

definition foo_upper :: node where
  "foo_upper =
     parent ''heading'' (pos (pt 5 1 15) (pt 5 7 21)) [literal ''text'' (pos (pt 5 4 18) (pt 5 7 21)) ''FOO'']"

definition foo_doc :: node where
  "foo_doc = parent ''root'' (pos (pt 1 1 0) (pt 5 7 21)) [foo_first, foo_second, bar_third]"

definition foo_upper_doc :: node where
  "foo_upper_doc = parent ''root'' (pos (pt 1 1 0) (pt 5 7 21)) [foo_first, foo_second, foo_upper]"

text \<open>
  The example \<^verbatim>\<open>not-ok.md\<close> of checkbox-content-indent: four list items with a checkbox,
  followed by one, two, three and four spaces. The content of an item starts one
  character after its checkbox.
\<close>

definition checkbox_text :: string where
  "checkbox_text =
     ''- [ ] List item'' @ [CHR 0x0A] @ ''+ [x]  List item'' @ [CHR 0x0A] @
     ''* [X]   List item'' @ [CHR 0x0A] @ ''- [ ]    List item''"

definition item :: "position option \<Rightarrow> bool \<Rightarrow> node list \<Rightarrow> node" where
  "item p b cs = Node ''listItem'' p cs [] [] None (Some b)"

definition checkbox_doc :: node where
  "checkbox_doc =
     parent ''root'' (pos (pt 1 1 0) (pt 4 19 69))
       [parent ''list'' (pos (pt 1 1 0) (pt 1 16 15))
          [item (pos (pt 1 1 0) (pt 1 16 15)) False [para (pos (pt 1 7 6) (pt 1 16 15)) ''List item'']],
        parent ''list'' (pos (pt 2 1 16) (pt 2 17 32))
          [item (pos (pt 2 1 16) (pt 2 17 32)) True [para (pos (pt 2 7 22) (pt 2 17 32)) '' List item'']],
        parent ''list'' (pos (pt 3 1 33) (pt 3 18 50))
          [item (pos (pt 3 1 33) (pt 3 18 50)) True [para (pos (pt 3 7 39) (pt 3 18 50)) ''  List item'']],
        parent ''list'' (pos (pt 4 1 51) (pt 4 19 69))
          [item (pos (pt 4 1 51) (pt 4 19 69)) False [para (pos (pt 4 7 57) (pt 4 19 69)) ''   List item'']]]"

text \<open>A document whose first heading is generated: it has no position.\<close>

definition generated_heading :: node where
  "generated_heading = parent ''heading'' None [literal ''text'' None ''Foo'']"

definition generated_doc :: node where
  "generated_doc = parent ''root'' (pos (pt 1 1 0) (pt 1 6 5)) [generated_heading, foo_first, foo_second]"

text \<open>
  A fenced code block at the offsets 12 to 28 of the text it was parsed from, and a text
  of 8 characters that has replaced that text since: neither offset is in the text.
\<close>

definition stale_text :: string where
  "stale_text = ''alpha();''"

definition stale_code :: node where
  "stale_code = literal ''code'' (pos (pt 3 1 12) (pt 5 4 28)) ''alpha();''"

definition stale_doc :: node where
  "stale_doc =
     parent ''root'' (pos (pt 1 1 0) (pt 5 4 28))
       [para (pos (pt 1 1 0) (pt 1 11 10)) ''Paragraph.'', stale_code]"

text \<open>A block quote with a position whose one child, a paragraph, has none.\<close>

definition quote_unplaced :: node where
  "quote_unplaced = parent ''blockquote'' (pos (pt 1 1 0) (pt 1 8 7)) [para None ''Hello'']"

definition unplaced_doc :: node where
  "unplaced_doc = parent ''root'' (pos (pt 1 1 0) (pt 1 8 7)) [quote_unplaced]"

text \<open>Two headings whose texts are the same word with an accented letter, small and capital.\<close>

definition cafe_small :: node where
  "cafe_small =
     parent ''heading'' (pos (pt 1 1 0) (pt 1 7 6))
       [literal ''text'' (pos (pt 1 3 2) (pt 1 7 6)) (''caf'' @ [CHR 0xE9])]"

definition cafe_capital :: node where
  "cafe_capital =
     parent ''heading'' (pos (pt 3 1 8) (pt 3 7 14))
       [literal ''text'' (pos (pt 3 3 10) (pt 3 7 14)) (''CAF'' @ [CHR 0xC9])]"

definition cafe_doc :: node where
  "cafe_doc = parent ''root'' (pos (pt 1 1 0) (pt 3 7 14)) [cafe_small, cafe_capital]"

text \<open>
  The three headings after a pass that wrapped each of them in a section without a
  position, and the same headings with the first two exchanged.
\<close>

definition sectioned_doc :: node where
  "sectioned_doc =
     parent ''root'' (pos (pt 1 1 0) (pt 5 7 21))
       [parent ''section'' None [foo_first], parent ''section'' None [foo_second],
        parent ''section'' None [foo_upper]]"

definition exchanged_doc :: node where
  "exchanged_doc = parent ''root'' (pos (pt 1 1 0) (pt 5 7 21)) [foo_second, foo_first, foo_upper]"

section \<open>What the visitors compute\<close>

lemma current_style_nonempty: "current_style v n \<noteq> []"
  by (simp add: current_style_def Let_def)

lemma code_fold_fixed:
  "p \<noteq> [] \<Longrightarrow>
   fold (code_visitor v) ns (Some p, msgs) =
     (Some p,
      msgs @ fixed_verdicts style_message (current_style v) p (filter (\<lambda>n. \<not> generated n) ns))"
  by (induction ns arbitrary: msgs) (auto simp: fixed_verdicts_def Let_def)

lemma code_fold_unset:
  "snd (fold (code_visitor v) ns (None, msgs)) =
     msgs @ consistent_verdicts style_message (current_style v) (filter (\<lambda>n. \<not> generated n) ns)"
proof (induction ns)
  case Nil
  then show ?case by (simp add: consistent_verdicts_def)
next
  case (Cons n ns)
  show ?case
  proof (cases "generated n")
    case True
    with Cons show ?thesis by simp
  next
    case False
    then show ?thesis
      by (simp add: Let_def code_fold_fixed [OF current_style_nonempty]
          consistent_verdicts_def fixed_verdicts_def)
  qed
qed

lemma blockquote_fold_fixed:
  "p \<noteq> 0 \<Longrightarrow>
   fold blockquote_visitor ns (Some (Finite p), msgs) =
     (Some (Finite p),
      msgs @ fixed_verdicts indentation_message check p
        (filter (\<lambda>n. \<not> generated n \<and> node_children n \<noteq> []) ns))"
  by (induction ns arbitrary: msgs) (auto simp: fixed_verdicts_def Let_def)

lemma blockquote_fold_zero:
  "snd (fold blockquote_visitor ns (Some (Finite 0), msgs)) =
   snd (fold blockquote_visitor ns (None, msgs))"
  by (induction ns arbitrary: msgs) (simp_all add: Let_def)

lemma blockquote_fold_nan:
  "snd (fold blockquote_visitor ns (Some NaN, msgs)) =
   snd (fold blockquote_visitor ns (None, msgs))"
  by (induction ns arbitrary: msgs) (simp_all add: Let_def)

lemma blockquote_fold_infinity:
  "fold blockquote_visitor ns (Some Infinity, msgs) =
     (Some Infinity,
      msgs @ map (unbounded_message True)
        (filter (\<lambda>n. \<not> generated n \<and> node_children n \<noteq> []) ns))"
  by (induction ns arbitrary: msgs) simp_all

lemma blockquote_fold_minus_infinity:
  "fold blockquote_visitor ns (Some MinusInfinity, msgs) =
     (Some MinusInfinity,
      msgs @ map (unbounded_message False)
        (filter (\<lambda>n. \<not> generated n \<and> node_children n \<noteq> []) ns))"
  by (induction ns arbitrary: msgs) simp_all

lemma blockquote_fold_unset:
  assumes "filter (\<lambda>n. \<not> generated n \<and> node_children n \<noteq> []) ns = [] \<or>
           check (hd (filter (\<lambda>n. \<not> generated n \<and> node_children n \<noteq> []) ns)) \<noteq> 0"
  shows "snd (fold blockquote_visitor ns (None, msgs)) =
     msgs @ consistent_verdicts indentation_message check
        (filter (\<lambda>n. \<not> generated n \<and> node_children n \<noteq> []) ns)"
  using assms
proof (induction ns)
  case Nil
  then show ?case by (simp add: consistent_verdicts_def)
next
  case (Cons n ns)
  show ?case
  proof (cases "\<not> generated n \<and> node_children n \<noteq> []")
    case True
    with Cons.prems have "check n \<noteq> 0" by simp
    with True show ?thesis
      by (simp add: Let_def blockquote_fold_fixed consistent_verdicts_def fixed_verdicts_def)
  next
    case False
    with Cons show ?thesis by auto
  qed
qed

lemma heading_fold:
  "fold (heading_length_visitor (Finite k)) ns msgs =
     msgs @ map (length_message (Finite k))
       (filter (\<lambda>n. \<not> generated n \<and> k < int (length (toString n))) ns)"
  by (induction ns arbitrary: msgs) (simp_all add: heading_length_visitor_def exceeds_def)

lemma heading_fold_nan: "fold (heading_length_visitor NaN) ns msgs = msgs"
  by (induction ns arbitrary: msgs) (simp_all add: heading_length_visitor_def exceeds_def)

lemma show_nat_40: "show_nat 40 = ''40''"
  by (simp add: show_nat.simps [of 40] show_nat.simps [of 4])

section \<open>Consistent mode\<close>

text \<open>
  C1. In consistent mode (no option, or the option \<^verbatim>\<open>consistent\<close>) the first node a rule looks
  at is never reported and sets the preferred style, and a later node is reported exactly
  when its style differs from that of the first. For code-block-style the nodes are the
  code blocks that are not generated. For blockquote-indentation they are the block quotes
  that are not generated and have a child, and the statement is for documents whose first
  such block quote has a content that is not flush with it (an indentation other than 0).
\<close>

theorem consistent_mode_compares_with_first:
  assumes "option = Undefined \<or> option = Str ''consistent''"
  shows "codeBlockStyle tree v option =
           Inr (consistent_verdicts style_message (current_style v)
                  (filter (\<lambda>n. \<not> generated n) (visit tree ''code''))) \<and>
         (let quotes = filter (\<lambda>n. \<not> generated n \<and> node_children n \<noteq> [])
                         (visit tree ''blockquote'')
          in (quotes = [] \<or> check (hd quotes) \<noteq> 0) \<longrightarrow>
             blockquoteIndentation tree option = consistent_verdicts indentation_message check quotes)"
proof -
  from assms have code: "codeBlockStyle tree v option =
      Inr (snd (fold (code_visitor v) (visit tree ''code'') (None, [])))"
    by (auto simp: codeBlockStyle_def styles_def string_of_def)
  from assms have quote: "blockquoteIndentation tree option =
      snd (fold blockquote_visitor (visit tree ''blockquote'') (None, []))"
    by (auto simp: blockquoteIndentation_def)
  show ?thesis
    unfolding code quote Let_def
    using code_fold_unset [of v "visit tree ''code''" "[]"]
      blockquote_fold_unset [of "visit tree ''blockquote''" "[]"]
    by simp
qed

theorem consistent_mode_compares_with_first_witness:
  "check (hd (filter (\<lambda>n. \<not> generated n \<and> node_children n \<noteq> [])
                (visit quote_doc ''blockquote''))) = 3 \<and>
   codeBlockStyle code_doc code_text Undefined = Inr [style_message ''indented'' code_bravo] \<and>
   blockquoteIndentation quote_doc (Str ''consistent'') =
     [indentation_message 3 quote_world, indentation_message 3 quote_last]"
proof -
  let ?quotes = "filter (\<lambda>n. \<not> generated n \<and> node_children n \<noteq> []) (visit quote_doc ''blockquote'')"
  have first: "check (hd ?quotes) = 3"
    by code_simp
  have code: "consistent_verdicts style_message (current_style code_text)
      (filter (\<lambda>n. \<not> generated n) (visit code_doc ''code'')) = [style_message ''indented'' code_bravo]"
    by code_simp
  have quote: "consistent_verdicts indentation_message check ?quotes =
      [indentation_message 3 quote_world, indentation_message 3 quote_last]"
    by code_simp
  have absent: "Undefined = Undefined \<or> Undefined = Str ''consistent''"
    and sentinel: "Str ''consistent'' = Undefined \<or> Str ''consistent'' = Str ''consistent''"
    by simp_all
  have "codeBlockStyle code_doc code_text Undefined = Inr [style_message ''indented'' code_bravo]"
    using consistent_mode_compares_with_first [OF absent, of code_doc code_text, THEN conjunct1]
    by (simp only: code)
  moreover have "blockquoteIndentation quote_doc (Str ''consistent'') =
      [indentation_message 3 quote_world, indentation_message 3 quote_last]"
    using consistent_mode_compares_with_first [OF sentinel, of quote_doc code_text, THEN conjunct2]
    by (simp add: Let_def first quote)
  ultimately show ?thesis using first by simp
qed

text \<open>
  The claim as it is written, with every block quote that is not generated as a matching
  node, fails on a document that starts with an empty block quote (a line with the marker
  alone, then two block quotes indented by 2 and by 3): the empty block quote is the first
  matching node, yet the rule takes the preferred indentation from the second block quote,
  does not report it, and reports the third alone.
\<close>

theorem consistent_mode_blockquote_counterexample:
  "filter (\<lambda>n. \<not> generated n) (visit empty_first_doc ''blockquote'') = [quote_empty, quote_a, quote_b] \<and>
   check quote_a \<noteq> check quote_empty \<and>
   blockquoteIndentation empty_first_doc Undefined = [indentation_message 2 quote_b] \<and>
   blockquoteIndentation empty_first_doc Undefined \<noteq>
     consistent_verdicts indentation_message check
       (filter (\<lambda>n. \<not> generated n) (visit empty_first_doc ''blockquote''))"
  by code_simp

text \<open>
  On a tree whose first block quote is flush with its content the indentation 0 is not
  kept: the second block quote sets the preferred indentation and is not reported.
\<close>

lemma flush_first_block_quote:
  "check quote_flush = 0"
  "blockquoteIndentation flush_first_doc Undefined = [indentation_message 2 quote_b]"
  "blockquoteIndentation flush_first_doc Undefined \<noteq>
     consistent_verdicts indentation_message check
       (filter (\<lambda>n. \<not> generated n) (visit flush_first_doc ''blockquote''))"
  by code_simp+

section \<open>A fixed preferred style\<close>

text \<open>
  C2. With the option \<^verbatim>\<open>fenced\<close> or \<^verbatim>\<open>indented\<close>, code-block-style compares every code block
  that is not generated, the first included, with the option and reports exactly those of
  another style. With an integer other than 0, blockquote-indentation compares every block
  quote that is not generated and has a child with that integer, the first included, and
  reports exactly those whose indentation differs; this is stated for an integer and for
  columns of at most \<open>2\<^sup>5\<^sup>2\<close>, the range in which the subtractions of the rule and the number
  it prints are exact in JavaScript. With an infinity, which differs from every
  indentation, it reports every such block quote. With \<^verbatim>\<open>fenced\<close> and a document of one
  indented and one fenced code block, the one message is \<^verbatim>\<open>Code blocks should be fenced\<close> on
  the indented block.
\<close>

theorem fixed_mode_compares_with_option:
  "(s = ''fenced'' \<or> s = ''indented'' \<longrightarrow>
      codeBlockStyle tree v (Str s) =
        Inr (fixed_verdicts style_message (current_style v) s
               (filter (\<lambda>n. \<not> generated n) (visit tree ''code'')))) \<and>
   (k \<noteq> 0 \<and> exact k \<and> (\<forall>n \<in> set (visit tree ''blockquote''). exact_columns n) \<longrightarrow>
      blockquoteIndentation tree (Num k) =
        fixed_verdicts indentation_message check k
          (filter (\<lambda>n. \<not> generated n \<and> node_children n \<noteq> []) (visit tree ''blockquote''))) \<and>
   blockquoteIndentation tree (Number Infinity) =
     map (unbounded_message True)
       (filter (\<lambda>n. \<not> generated n \<and> node_children n \<noteq> []) (visit tree ''blockquote'')) \<and>
   blockquoteIndentation tree (Number MinusInfinity) =
     map (unbounded_message False)
       (filter (\<lambda>n. \<not> generated n \<and> node_children n \<noteq> []) (visit tree ''blockquote'')) \<and>
   (visit tree ''code'' \<in> {[a, b], [b, a]} \<and> \<not> generated a \<and> \<not> generated b \<and>
    current_style v a = ''indented'' \<and> current_style v b = ''fenced'' \<longrightarrow>
      codeBlockStyle tree v (Str ''fenced'') =
        Inr [message ''Code blocks should be fenced'' (AtNode a)])"
proof -
  have fixed: "codeBlockStyle tree v (Str s) =
      Inr (fixed_verdicts style_message (current_style v) s
             (filter (\<lambda>n. \<not> generated n) (visit tree ''code'')))"
    if "s = ''fenced'' \<or> s = ''indented''" for s
  proof -
    from that have "s \<noteq> []" and "s \<noteq> ''consistent''" and "styles (Some s)"
      by (auto simp: styles_def string_of_def)
    then show ?thesis
      by (simp add: codeBlockStyle_def code_fold_fixed)
  qed
  have quote: "blockquoteIndentation tree (Num k) =
      fixed_verdicts indentation_message check k
        (filter (\<lambda>n. \<not> generated n \<and> node_children n \<noteq> []) (visit tree ''blockquote''))"
    if "k \<noteq> 0"
    using that by (simp add: blockquoteIndentation_def blockquote_fold_fixed)
  have scenario: "codeBlockStyle tree v (Str ''fenced'') =
      Inr [message ''Code blocks should be fenced'' (AtNode a)]"
    if "visit tree ''code'' \<in> {[a, b], [b, a]}" "\<not> generated a" "\<not> generated b"
      "current_style v a = ''indented''" "current_style v b = ''fenced''"
    using that fixed [of "''fenced''"]
    by (auto simp: fixed_verdicts_def style_message_def)
  have unbounded: "blockquoteIndentation tree (Number Infinity) =
      map (unbounded_message True)
        (filter (\<lambda>n. \<not> generated n \<and> node_children n \<noteq> []) (visit tree ''blockquote''))"
    "blockquoteIndentation tree (Number MinusInfinity) =
      map (unbounded_message False)
        (filter (\<lambda>n. \<not> generated n \<and> node_children n \<noteq> []) (visit tree ''blockquote''))"
    by (simp_all add: blockquoteIndentation_def blockquote_fold_infinity
        blockquote_fold_minus_infinity)
  from fixed quote scenario unbounded show ?thesis by blast
qed

theorem fixed_mode_compares_with_option_witness:
  "visit code_doc ''code'' = [code_alpha, code_bravo] \<and>
   \<not> generated code_alpha \<and> \<not> generated code_bravo \<and>
   current_style code_text code_alpha = ''indented'' \<and>
   current_style code_text code_bravo = ''fenced'' \<and>
   codeBlockStyle code_doc code_text (Str ''fenced'') =
     Inr [message ''Code blocks should be fenced'' (AtNode code_alpha)] \<and>
   codeBlockStyle code_doc code_text (Str ''indented'') = Inr [style_message ''indented'' code_bravo] \<and>
   exact 2 \<and> list_all exact_columns (visit quote_doc ''blockquote'') \<and>
   blockquoteIndentation quote_doc (Num 2) =
     [indentation_message 2 quote_hello, indentation_message 2 quote_world]"
proof -
  have scene: "visit code_doc ''code'' = [code_alpha, code_bravo]"
    "\<not> generated code_alpha" "\<not> generated code_bravo"
    "current_style code_text code_alpha = ''indented''"
    "current_style code_text code_bravo = ''fenced''"
    by code_simp+
  have indented: "fixed_verdicts style_message (current_style code_text) ''indented''
      (filter (\<lambda>n. \<not> generated n) (visit code_doc ''code'')) = [style_message ''indented'' code_bravo]"
    by code_simp
  have quote: "fixed_verdicts indentation_message check 2
      (filter (\<lambda>n. \<not> generated n \<and> node_children n \<noteq> []) (visit quote_doc ''blockquote'')) =
      [indentation_message 2 quote_hello, indentation_message 2 quote_world]"
    by code_simp
  have range: "exact 2" "list_all exact_columns (visit quote_doc ''blockquote'')"
    by code_simp+
  note rule = fixed_mode_compares_with_option [of "''indented''" code_doc code_text 2 code_alpha code_bravo]
  have "codeBlockStyle code_doc code_text (Str ''fenced'') =
      Inr [message ''Code blocks should be fenced'' (AtNode code_alpha)]"
    using rule scene by simp
  moreover have "codeBlockStyle code_doc code_text (Str ''indented'') =
      Inr [style_message ''indented'' code_bravo]"
    using rule by (simp add: indented)
  moreover have "blockquoteIndentation quote_doc (Num 2) =
      [indentation_message 2 quote_hello, indentation_message 2 quote_world]"
    using fixed_mode_compares_with_option [of "''fenced''" quote_doc code_text 2 code_alpha code_bravo]
      range
    by (simp add: quote list_all_iff)
  ultimately show ?thesis using scene range by simp
qed

text \<open>
  The claim as it is written, with every block quote that is not generated compared with
  the option, fails with the option 2 on the document that starts with an empty block
  quote: the empty block quote is skipped, not compared, and the one message is on the
  third block quote.
\<close>

theorem fixed_mode_empty_counterexample:
  "filter (\<lambda>n. \<not> generated n) (visit empty_first_doc ''blockquote'') = [quote_empty, quote_a, quote_b] \<and>
   check quote_empty \<noteq> 2 \<and>
   blockquoteIndentation empty_first_doc (Num 2) = [indentation_message 2 quote_b] \<and>
   blockquoteIndentation empty_first_doc (Num 2) \<noteq>
     fixed_verdicts indentation_message check 2
       (filter (\<lambda>n. \<not> generated n) (visit empty_first_doc ''blockquote''))"
  by code_simp

text \<open>
  The number 0 is no preference: with the option 0 the first block quote of the example
  sets the preferred indentation and is not reported, though its indentation is not 0.
\<close>

lemma zero_is_no_preference:
  "check quote_hello = 3"
  "blockquoteIndentation quote_doc (Num 0) =
     [indentation_message 3 quote_world, indentation_message 3 quote_last]"
  "blockquoteIndentation quote_doc (Num 0) \<noteq>
     fixed_verdicts indentation_message check 0
       (filter (\<lambda>n. \<not> generated n) (visit quote_doc ''blockquote''))"
  by code_simp+

text \<open>
  \<^verbatim>\<open>NaN\<close> passes \<^verbatim>\<open>typeof option === 'number'\<close> and is falsy in \<^verbatim>\<open>if (preferred)\<close>: like 0 it is
  no preference, on every tree.
\<close>

lemma nan_is_no_preference:
  "blockquoteIndentation tree (Number NaN) = blockquoteIndentation tree Undefined"
  by (simp add: blockquoteIndentation_def blockquote_fold_nan)

lemma numbers_on_example:
  "blockquoteIndentation quote_doc (Number NaN) =
     [indentation_message 3 quote_world, indentation_message 3 quote_last]"
  "blockquoteIndentation quote_doc (Number Infinity) =
     [unbounded_message True quote_hello, unbounded_message True quote_world,
      unbounded_message True quote_last]"
  "reason (unbounded_message True quote_hello) =
     ''Add Infinity spaces between block quote and content''"
  "reason (unbounded_message False quote_hello) =
     ''Remove Infinity spaces between block quote and content''"
  by code_simp+

section \<open>Options\<close>

text \<open>
  C4. An option string other than \<^verbatim>\<open>consistent\<close>, \<^verbatim>\<open>fenced\<close> and \<^verbatim>\<open>indented\<close> is to be rejected
  with the fatal configuration error, before the traversal. The string \<^verbatim>\<open>null\<close> is none of
  the three, yet the rule does not fail on it: the table of styles has the key \<^verbatim>\<open>null\<close>
  for the absent preference. The rule goes on with \<^verbatim>\<open>null\<close> as the preferred style and
  reports every code block. Every other string is rejected.
\<close>

theorem null_style_is_not_rejected:
  "codeBlockStyle code_doc code_text (Str ''null'') =
     Inr [message ''Code blocks should be null'' (AtNode code_alpha),
          message ''Code blocks should be null'' (AtNode code_bravo)]"
  by code_simp

lemma other_styles_rejected:
  "s \<notin> {''consistent'', ''fenced'', ''indented'', ''null''} \<Longrightarrow>
   codeBlockStyle tree v (Str s) = Inl (fail (incorrect_style (Some s)))"
  by (simp add: codeBlockStyle_def styles_def string_of_def)

text \<open>
  C9. For blockquote-indentation the option 0 gives, on every tree, the messages of no
  option at all: 0 is not a fixed indentation, the rule infers the indentation as in
  consistent mode.
\<close>

theorem zero_option_is_consistent:
  "blockquoteIndentation tree (Num 0) = blockquoteIndentation tree Undefined"
  by (simp add: blockquoteIndentation_def blockquote_fold_zero)

section \<open>Documents without matching nodes\<close>

text \<open>
  C5. On a tree without a node of the type a rule looks for, the rule appends no message,
  whatever the option; for code-block-style this is for an option that is valid (no
  string, or one of the strings the table of styles accepts).
\<close>

theorem no_matching_nodes_no_messages:
  "(visit tree ''code'' = [] \<and>
    (\<forall>s. option = Str s \<longrightarrow> s \<in> {''consistent'', ''fenced'', ''indented'', ''null''}) \<longrightarrow>
      codeBlockStyle tree v option = Inr []) \<and>
   (visit tree ''blockquote'' = [] \<longrightarrow> blockquoteIndentation tree option = []) \<and>
   (visit tree ''heading'' = [] \<longrightarrow> remarkLintMaximumHeadingLength tree option = []) \<and>
   (visit tree ''heading'' = [] \<longrightarrow> remarkLintNoDuplicateHeadings tree = []) \<and>
   (visit tree ''listItem'' = [] \<longrightarrow> remarkLintCheckboxContentIndent tree v = [])"
  by (cases option)
    (auto simp: codeBlockStyle_def blockquoteIndentation_def remarkLintMaximumHeadingLength_def
      remarkLintNoDuplicateHeadings_def remarkLintCheckboxContentIndent_def styles_def
      string_of_def)

theorem no_matching_nodes_no_messages_witness:
  "visit plain_doc ''code'' = [] \<and> visit plain_doc ''blockquote'' = [] \<and>
   visit plain_doc ''heading'' = [] \<and> visit plain_doc ''listItem'' = [] \<and>
   codeBlockStyle plain_doc ''Paragraph.'' (Str ''fenced'') = Inr [] \<and>
   blockquoteIndentation plain_doc (Num 2) = [] \<and>
   remarkLintMaximumHeadingLength plain_doc (Num 2) = [] \<and>
   remarkLintNoDuplicateHeadings plain_doc = [] \<and>
   remarkLintCheckboxContentIndent plain_doc ''Paragraph.'' = []"
proof -
  have none: "visit plain_doc ''code'' = []" "visit plain_doc ''blockquote'' = []"
    "visit plain_doc ''heading'' = []" "visit plain_doc ''listItem'' = []"
    by code_simp+
  with no_matching_nodes_no_messages [of plain_doc "Str ''fenced''" "''Paragraph.''"]
    no_matching_nodes_no_messages [of plain_doc "Num 2" "''Paragraph.''"]
  show ?thesis by simp
qed

text \<open>
  The claim as it is written, for any option, fails for code-block-style: an option that
  is not valid gives the fatal message also on a document without code blocks.
\<close>

theorem no_matching_nodes_invalid_option_counterexample:
  "visit plain_doc ''code'' = [] \<and>
   messages_of (codeBlockStyle plain_doc ''Paragraph.'' (Str ''tilde'')) =
     [\<lparr>reason = ''Incorrect code block style `tilde`: use either `'consistent'`, `'fenced'`, or `'indented'`'',
       place = NoPlace, fatal = True\<rparr>]"
  by code_simp

section \<open>Heading length\<close>

text \<open>
  C6. With the option 40, a heading that is not generated and whose text has 52 characters
  gets one message for each time it is visited (exactly one when it is the only heading),
  and no message is on a heading whose text has at most 40 characters.
\<close>

theorem maximum_heading_length_40:
  "(\<not> generated h \<and> length (toString h) = 52 \<longrightarrow>
      length (filter (\<lambda>d. place d = AtNode h) (remarkLintMaximumHeadingLength tree (Num 40))) =
        count_list (visit tree ''heading'') h) \<and>
   (\<not> generated h \<and> length (toString h) = 52 \<and> visit tree ''heading'' = [h] \<longrightarrow>
      remarkLintMaximumHeadingLength tree (Num 40) =
        [message ''Use headings shorter than `40`'' (AtNode h)]) \<and>
   (length (toString h) \<le> 40 \<longrightarrow>
      (\<forall>d \<in> set (remarkLintMaximumHeadingLength tree (Num 40)). place d \<noteq> AtNode h))"
proof -
  let ?long = "\<lambda>n. \<not> generated n \<and> 40 < int (length (toString n))"
  have rule: "remarkLintMaximumHeadingLength tree (Num 40) =
      map (length_message (Finite 40)) (filter ?long (visit tree ''heading''))"
    by (simp add: remarkLintMaximumHeadingLength_def heading_fold)
  have count: "length (filter (\<lambda>d. place d = AtNode h) (map (length_message (Finite 40)) (filter ?long ns))) =
      count_list ns h" if "?long h" for ns
    using that by (induction ns) (auto simp: length_message_def message_def)
  have none: "\<forall>d \<in> set (map (length_message (Finite 40)) (filter ?long ns)). place d \<noteq> AtNode h"
    if "\<not> ?long h" for ns
    using that by (auto simp: length_message_def message_def)
  have wording: "length_message (Finite 40) h = message ''Use headings shorter than `40`'' (AtNode h)"
    by (simp add: length_message_def show_number_def show_int_def show_nat_40)
  show ?thesis
    unfolding rule using count [of "visit tree ''heading''"] none [of "visit tree ''heading''"] wording
    by auto
qed

theorem maximum_heading_length_40_witness:
  "\<not> generated long_heading \<and> length (toString long_heading) = 52 \<and>
   visit long_heading_doc ''heading'' = [long_heading] \<and>
   length (toString short_heading) \<le> 40 \<and>
   remarkLintMaximumHeadingLength long_heading_doc (Num 40) =
     [message ''Use headings shorter than `40`'' (AtNode long_heading)] \<and>
   remarkLintMaximumHeadingLength heading_doc (Num 40) =
     [message ''Use headings shorter than `40`'' (AtNode long_heading)]"
proof -
  have long: "\<not> generated long_heading" "length (toString long_heading) = 52"
    "visit long_heading_doc ''heading'' = [long_heading]"
    and short: "length (toString short_heading) \<le> 40"
    and both: "remarkLintMaximumHeadingLength heading_doc (Num 40) =
      [message ''Use headings shorter than `40`'' (AtNode long_heading)]"
    by code_simp+
  have "\<forall>d \<in> set (remarkLintMaximumHeadingLength heading_doc (Num 40)).
      place d \<noteq> AtNode short_heading"
    using maximum_heading_length_40 [of short_heading heading_doc] short by simp
  moreover have "remarkLintMaximumHeadingLength long_heading_doc (Num 40) =
      [message ''Use headings shorter than `40`'' (AtNode long_heading)]"
    using maximum_heading_length_40 [of long_heading long_heading_doc] long by simp
  ultimately show ?thesis using long short both by simp
qed

text \<open>
  No length exceeds \<^verbatim>\<open>NaN\<close>: with this option the rule reports nothing, on every tree.
\<close>

lemma nan_length_reports_nothing: "remarkLintMaximumHeadingLength tree (Number NaN) = []"
  by (simp add: remarkLintMaximumHeadingLength_def heading_fold_nan)

section \<open>Messages and the nodes they come from\<close>

text \<open>
  A visitor that leaves the messages as they are or appends one message: after the
  traversal the new messages come from a subsequence of the visited nodes, in order.
\<close>

lemma fold_emits:
  assumes "\<And>n st ms. n \<in> set ns \<Longrightarrow>
     (\<exists>st'. f n (st, ms) = (st', ms)) \<or> (\<exists>st' d. f n (st, ms) = (st', ms @ [d]) \<and> Q n d)"
  shows "\<exists>st' nds. fold f ns (st, ms) = (st', ms @ map snd nds) \<and>
     subseq (map fst nds) ns \<and> (\<forall>(n, d) \<in> set nds. Q n d)"
  using assms
proof (induction ns arbitrary: st ms)
  case Nil
  have "fold f [] (st, ms) = (st, ms @ map snd [])" by simp
  then show ?case by fastforce
next
  case (Cons n ns)
  have step: "(\<exists>st'. f n (st, ms) = (st', ms)) \<or>
      (\<exists>st' d. f n (st, ms) = (st', ms @ [d]) \<and> Q n d)"
    using Cons.prems [of n st ms] by simp
  have rest: "\<exists>st' nds. fold f ns (st1, ms1) = (st', ms1 @ map snd nds) \<and>
      subseq (map fst nds) ns \<and> (\<forall>(n, d) \<in> set nds. Q n d)" for st1 ms1
    using Cons.IH [of st1 ms1] Cons.prems by simp
  from step show ?case
  proof
    assume "\<exists>st'. f n (st, ms) = (st', ms)"
    then obtain st1 where s1: "f n (st, ms) = (st1, ms)" by blast
    from rest [of st1 ms] obtain st' nds where
      r: "fold f ns (st1, ms) = (st', ms @ map snd nds)" "subseq (map fst nds) ns"
         "\<forall>(n, d) \<in> set nds. Q n d"
      by blast
    from r(2) have "subseq (map fst nds) (n # ns)" by (rule list_emb_Cons)
    with s1 r show ?thesis by auto
  next
    assume "\<exists>st' d. f n (st, ms) = (st', ms @ [d]) \<and> Q n d"
    then obtain st1 d where s1: "f n (st, ms) = (st1, ms @ [d])" and q: "Q n d" by blast
    from rest [of st1 "ms @ [d]"] obtain st' nds where
      r: "fold f ns (st1, ms @ [d]) = (st', (ms @ [d]) @ map snd nds)"
         "subseq (map fst nds) ns" "\<forall>(n, d) \<in> set nds. Q n d"
      by blast
    have "fold f (n # ns) (st, ms) = (st', ms @ map snd ((n, d) # nds))"
      using s1 r(1) by simp
    moreover have "subseq (map fst ((n, d) # nds)) (n # ns)"
      using r(2) by simp
    moreover have "\<forall>(n, d) \<in> set ((n, d) # nds). Q n d"
      using q r(3) by simp
    ultimately show ?thesis by blast
  qed
qed

text \<open>The same for a visitor whose only state is the list of messages.\<close>

lemma fold_with_unit:
  "fold (\<lambda>n (u, ms). ((), g n ms)) ns ((), ms) = ((), fold g ns ms)"
  by (induction ns arbitrary: ms) simp_all

lemma fold_emits_plain:
  assumes "\<And>n ms. n \<in> set ns \<Longrightarrow> g n ms = ms \<or> (\<exists>d. g n ms = ms @ [d] \<and> Q n d)"
  shows "\<exists>nds. fold g ns ms = ms @ map snd nds \<and>
     subseq (map fst nds) ns \<and> (\<forall>(n, d) \<in> set nds. Q n d)"
proof -
  let ?f = "\<lambda>n (u, ms). ((), g n ms)"
  have "(\<exists>st'. ?f n (st, ms) = (st', ms)) \<or> (\<exists>st' d. ?f n (st, ms) = (st', ms @ [d]) \<and> Q n d)"
    if "n \<in> set ns" for n st ms
    using assms [OF that, of ms] by auto
  from fold_emits [of ns ?f Q "()" ms, OF this]
  obtain st' nds where "fold ?f ns ((), ms) = (st', ms @ map snd nds)"
    "subseq (map fst nds) ns" "\<forall>(n, d) \<in> set nds. Q n d"
    by blast
  then show ?thesis
    unfolding fold_with_unit by blast
qed

text \<open>Each of the five visitors, on one node.\<close>

lemma code_visitor_emits:
  "(\<exists>st'. code_visitor v n (st, ms) = (st', ms)) \<or>
   (\<exists>st' d. code_visitor v n (st, ms) = (st', ms @ [d]) \<and> \<not> generated n \<and> place d = AtNode n)"
  by (auto simp: Let_def style_message_def message_def split: option.splits)

lemma blockquote_visitor_emits:
  "(\<exists>st'. blockquote_visitor n (st, ms) = (st', ms)) \<or>
   (\<exists>st' d. blockquote_visitor n (st, ms) = (st', ms @ [d]) \<and>
      \<not> generated n \<and> node_children n \<noteq> [] \<and> place d = AtPoint (first_child_start n))"
  by (auto simp: Let_def indentation_message_def unbounded_message_def message_def
      split: option.splits number.splits)

lemma heading_length_visitor_emits:
  "heading_length_visitor k n ms = ms \<or>
   (\<exists>d. heading_length_visitor k n ms = ms @ [d] \<and> \<not> generated n \<and> place d = AtNode n)"
  by (auto simp: heading_length_visitor_def length_message_def message_def)

lemma duplicate_visitor_emits:
  "(\<exists>st'. duplicate_visitor n (st, ms) = (st', ms)) \<or>
   (\<exists>st' d. duplicate_visitor n (st, ms) = (st', ms @ [d]) \<and> \<not> generated n \<and> place d = AtNode n)"
  by (auto simp: Let_def duplicate_message_def message_def split: option.splits)

lemma checkbox_visitor_emits:
  "checkbox_visitor v n ms = ms \<or>
   (\<exists>d. checkbox_visitor v n ms = ms @ [d] \<and> \<not> generated n \<and>
      0 < num (skip_blanks v (offset (content_point n))) - num (offset (content_point n)) \<and>
      d = checkbox_message v (offset (content_point n))
            (skip_blanks v (offset (content_point n))))"
  by (auto simp: checkbox_visitor_def Let_def)

text \<open>The five rules: every message comes from a visited node, and these nodes are in order.\<close>

lemma codeBlockStyle_emits:
  assumes "codeBlockStyle tree v option = Inr ds"
  shows "\<exists>nds. ds = map snd nds \<and> subseq (map fst nds) (visit tree ''code'') \<and>
     (\<forall>(n, d) \<in> set nds. \<not> generated n \<and> place d = AtNode n)"
proof -
  from assms obtain p where
    ds: "ds = snd (fold (code_visitor v) (visit tree ''code'') (p, []))"
    by (auto simp: codeBlockStyle_def Let_def split: if_splits)
  from fold_emits [of "visit tree ''code''" "code_visitor v"
      "\<lambda>n d. \<not> generated n \<and> place d = AtNode n" p "[]", OF code_visitor_emits]
  obtain st' nds where
    "fold (code_visitor v) (visit tree ''code'') (p, []) = (st', [] @ map snd nds)"
    "subseq (map fst nds) (visit tree ''code'')"
    "\<forall>(n, d) \<in> set nds. \<not> generated n \<and> place d = AtNode n"
    by blast
  with ds show ?thesis by (intro exI [of _ nds]) simp
qed

lemma blockquoteIndentation_emits:
  "\<exists>nds. blockquoteIndentation tree option = map snd nds \<and>
     subseq (map fst nds) (visit tree ''blockquote'') \<and>
     (\<forall>(n, d) \<in> set nds. \<not> generated n \<and> node_children n \<noteq> [] \<and>
        place d = AtPoint (first_child_start n))"
proof -
  obtain p where
    ds: "blockquoteIndentation tree option =
      snd (fold blockquote_visitor (visit tree ''blockquote'') (p, []))"
    by (simp add: blockquoteIndentation_def Let_def)
  from fold_emits [of "visit tree ''blockquote''" blockquote_visitor
      "\<lambda>n d. \<not> generated n \<and> node_children n \<noteq> [] \<and> place d = AtPoint (first_child_start n)"
      p "[]", OF blockquote_visitor_emits]
  obtain st' nds where
    "fold blockquote_visitor (visit tree ''blockquote'') (p, []) = (st', [] @ map snd nds)"
    "subseq (map fst nds) (visit tree ''blockquote'')"
    "\<forall>(n, d) \<in> set nds. \<not> generated n \<and> node_children n \<noteq> [] \<and>
        place d = AtPoint (first_child_start n)"
    by blast
  with ds show ?thesis by (intro exI [of _ nds]) simp
qed

lemma remarkLintMaximumHeadingLength_emits:
  "\<exists>nds. remarkLintMaximumHeadingLength tree option = map snd nds \<and>
     subseq (map fst nds) (visit tree ''heading'') \<and>
     (\<forall>(n, d) \<in> set nds. \<not> generated n \<and> place d = AtNode n)"
proof -
  obtain k where
    ds: "remarkLintMaximumHeadingLength tree option =
      fold (heading_length_visitor k) (visit tree ''heading'') []"
    by (simp add: remarkLintMaximumHeadingLength_def Let_def)
  from fold_emits_plain [of "visit tree ''heading''" "heading_length_visitor k"
      "\<lambda>n d. \<not> generated n \<and> place d = AtNode n" "[]", OF heading_length_visitor_emits]
  show ?thesis unfolding ds by simp
qed

lemma remarkLintNoDuplicateHeadings_emits:
  "\<exists>nds. remarkLintNoDuplicateHeadings tree = map snd nds \<and>
     subseq (map fst nds) (visit tree ''heading'') \<and>
     (\<forall>(n, d) \<in> set nds. \<not> generated n \<and> place d = AtNode n)"
proof -
  from fold_emits [of "visit tree ''heading''" duplicate_visitor
      "\<lambda>n d. \<not> generated n \<and> place d = AtNode n" Map.empty "[]", OF duplicate_visitor_emits]
  obtain st' nds where
    "fold duplicate_visitor (visit tree ''heading'') (Map.empty, []) = (st', [] @ map snd nds)"
    "subseq (map fst nds) (visit tree ''heading'')"
    "\<forall>(n, d) \<in> set nds. \<not> generated n \<and> place d = AtNode n"
    by blast
  then show ?thesis
    by (intro exI [of _ nds]) (simp add: remarkLintNoDuplicateHeadings_def)
qed

lemma remarkLintCheckboxContentIndent_emits:
  "\<exists>nds. remarkLintCheckboxContentIndent tree v = map snd nds \<and>
     subseq (map fst nds) (visit tree ''listItem'') \<and>
     (\<forall>(n, d) \<in> set nds. \<not> generated n \<and>
        0 < num (skip_blanks v (offset (content_point n))) - num (offset (content_point n)) \<and>
        d = checkbox_message v (offset (content_point n))
              (skip_blanks v (offset (content_point n))))"
  using fold_emits_plain [of "visit tree ''listItem''" "checkbox_visitor v" _ "[]",
      OF checkbox_visitor_emits]
  by (simp add: remarkLintCheckboxContentIndent_def)

lemma emitted_from_visited:
  assumes "subseq (map fst nds) ns" and "\<forall>(n, d) \<in> set nds. Q n d" and "d \<in> set (map snd nds)"
  shows "\<exists>n \<in> set ns. Q n d"
proof -
  from assms(3) obtain n where nd: "(n, d) \<in> set nds" by auto
  then have "n \<in> set (map fst nds)" by force
  with assms(1) obtain m where "m \<in> set ns" and "n = m" by (rule list_emb_set)
  then have "n \<in> set ns" by simp
  with nd assms(2) show ?thesis by auto
qed

section \<open>Trees in document order\<close>

lemma subseq_concat_map:
  assumes "\<And>c. c \<in> set cs \<Longrightarrow> subseq (f c) (g c)"
  shows "subseq (concat (map f cs)) (concat (map g cs))"
  using assms by (induction cs) (simp_all add: list_emb_append_mono)

lemma subseq_concat_sub:
  "subseq xs ys \<Longrightarrow> subseq (concat (map f xs)) (concat (map f ys))"
  by (induction rule: list_emb.induct) (simp_all add: subseq_drop_many list_emb_append_mono)

lemma concat_map_concat:
  "concat (map f (concat xss)) = concat (map (\<lambda>xs. concat (map f xs)) xss)"
  by (induction xss) simp_all

lemma subseq_suffix: "subseq (xs @ ys) zs \<Longrightarrow> subseq ys zs"
  using subseq_order.trans [of ys "xs @ ys" zs] by (simp add: subseq_drop_many)

lemma sorted_subseq:
  fixes xs :: "nat list"
  shows "subseq xs ys \<Longrightarrow> sorted ys \<Longrightarrow> sorted xs"
  by (auto simp: subseq_conv_nths sorted_nths)

lemma visit_preorder: "visit n k = filter (\<lambda>m. node_type m = k) (preorder n)"
proof (induction n)
  case (Node t p cs v a l c)
  have "map (\<lambda>ch. visit ch k) cs = map (\<lambda>ch. filter (\<lambda>m. node_type m = k) (preorder ch)) cs"
    using Node.IH by simp
  then have "concat (map (\<lambda>ch. visit ch k) cs) =
      concat (map (\<lambda>ch. filter (\<lambda>m. node_type m = k) (preorder ch)) cs)"
    by (rule arg_cong)
  then show ?case
    by (simp add: filter_concat comp_def del: map_eq_conv)
qed

lemma preorder_child:
  "m \<in> set (preorder n) \<Longrightarrow> ch \<in> set (node_children m) \<Longrightarrow> ch \<in> set (preorder n)"
proof (induction n)
  case (Node t p cs v a l c)
  from Node.prems(1) consider "m = Node t p cs v a l c"
    | x where "x \<in> set cs" "m \<in> set (preorder x)"
    by auto
  then show ?case
  proof cases
    case 1
    with Node.prems(2) have "ch \<in> set cs" by simp
    moreover have "ch \<in> set (preorder ch)" by (cases ch) simp
    ultimately show ?thesis by auto
  next
    case 2
    with Node.IH Node.prems(2) have "ch \<in> set (preorder x)" by blast
    with 2(1) show ?thesis by auto
  qed
qed

text \<open>
  The walk through a tree meets the starts of its nodes in the order of the traversal,
  parents first.
\<close>

lemma starts_in_marks:
  "subseq (concat (map (\<lambda>m. mark (offset (pointStart m))) (preorder n))) (marks n)"
proof (induction n)
  case (Node t p cs v a l c)
  let ?n = "Node t p cs v a l c"
  let ?f = "\<lambda>ch. concat (map (\<lambda>m. mark (offset (pointStart m))) (preorder ch))"
  have "subseq (concat (map ?f cs)) (concat (map marks cs))"
    using Node.IH by (rule subseq_concat_map)
  then have "subseq (concat (map ?f cs)) (concat (map marks cs) @ mark (offset (pointEnd ?n)))"
    by (rule subseq_rev_drop_many)
  then have "subseq (mark (offset (pointStart ?n)) @ concat (map ?f cs)) (marks ?n)"
    by (simp add: list_emb_append_mono)
  moreover have "concat (map (\<lambda>m. mark (offset (pointStart m))) (preorder ?n)) =
      mark (offset (pointStart ?n)) @ concat (map ?f cs)"
    by (simp add: concat_map_concat comp_def)
  ultimately show ?case by simp
qed

text \<open>
  An anchor that is the start of the first child, or the end of a node without children,
  or absent: the walk meets the start of a node and then the anchors of its nodes, in the
  order of the traversal.
\<close>

lemma anchors_in_marks:
  assumes anchor: "\<And>m. A m = None \<or>
      (node_children m \<noteq> [] \<and> A m = offset (pointStart (hd (node_children m)))) \<or>
      (node_children m = [] \<and> A m = offset (pointEnd m))"
  shows "subseq (mark (offset (pointStart n)) @ concat (map (\<lambda>m. mark (A m)) (preorder n)))
     (marks n)"
proof (induction n)
  case (Node t p cs v a l c)
  let ?n = "Node t p cs v a l c"
  let ?f = "\<lambda>ch. concat (map (\<lambda>m. mark (A m)) (preorder ch))"
  have shape: "concat (map (\<lambda>m. mark (A m)) (preorder ?n)) = mark (A ?n) @ concat (map ?f cs)"
    by (simp add: concat_map_concat comp_def)
  have below: "subseq (?f ch) (marks ch)" if "ch \<in> set cs" for ch
    using Node.IH [OF that] by (rule subseq_suffix)
  have "subseq (mark (A ?n) @ concat (map ?f cs)) (concat (map marks cs) @ mark (offset (pointEnd ?n)))"
  proof (cases cs)
    case Nil
    with anchor [of ?n] have "A ?n = None \<or> A ?n = offset (pointEnd ?n)" by simp
    with Nil show ?thesis by (auto simp: mark_def)
  next
    case (Cons c1 rest)
    have rest: "subseq (concat (map ?f rest)) (concat (map marks rest))"
      using below Cons by (intro subseq_concat_map) simp
    from anchor [of ?n] Cons have "A ?n = None \<or> A ?n = offset (pointStart c1)" by simp
    then have "subseq (mark (A ?n) @ ?f c1) (marks c1)"
    proof
      assume "A ?n = None"
      with below [of c1] Cons show ?thesis by (simp add: mark_def)
    next
      assume "A ?n = offset (pointStart c1)"
      with Node.IH [of c1] Cons show ?thesis by simp
    qed
    from this rest have "subseq ((mark (A ?n) @ ?f c1) @ concat (map ?f rest))
        (marks c1 @ concat (map marks rest))"
      by (rule list_emb_append_mono)
    then have "subseq ((mark (A ?n) @ ?f c1) @ concat (map ?f rest))
        ((marks c1 @ concat (map marks rest)) @ mark (offset (pointEnd ?n)))"
      by (rule subseq_rev_drop_many)
    with Cons show ?thesis by simp
  qed
  then have "subseq (mark (offset (pointStart ?n)) @ mark (A ?n) @ concat (map ?f cs)) (marks ?n)"
    by (simp add: list_emb_append_mono)
  with shape show ?case by simp
qed

text \<open>
  Messages that come from a subsequence of the visited nodes and start at the anchors of
  their nodes are ascending, when the walk meets the anchors in the order of the traversal.
\<close>

lemma offsets_of_anchors:
  "\<forall>(n, d) \<in> set nds. start_offset d = A n \<Longrightarrow>
   start_offsets (map snd nds) = concat (map (\<lambda>m. mark (A m)) (map fst nds))"
  by (induction nds) (auto simp: start_offsets_def)

lemma ascending_from_anchors:
  assumes tree: "in_document_order tree"
    and walk: "subseq (concat (map (\<lambda>m. mark (A m)) (preorder tree))) (marks tree)"
    and sub: "subseq (map fst nds) (visit tree k)"
    and at: "\<And>n d. (n, d) \<in> set nds \<Longrightarrow> start_offset d = A n"
  shows "offsets_ascending (map snd nds)"
proof -
  have "start_offsets (map snd nds) = concat (map (\<lambda>m. mark (A m)) (map fst nds))"
    using at by (intro offsets_of_anchors) auto
  moreover have "subseq (map fst nds) (preorder tree)"
    using sub subseq_filter_left [of "\<lambda>m. node_type m = k" "preorder tree"]
    unfolding visit_preorder by (rule subseq_order.trans)
  then have "subseq (concat (map (\<lambda>m. mark (A m)) (map fst nds)))
      (concat (map (\<lambda>m. mark (A m)) (preorder tree)))"
    by (rule subseq_concat_sub)
  ultimately have "subseq (start_offsets (map snd nds)) (marks tree)"
    using walk by (simp add: subseq_order.trans)
  then show ?thesis
    using tree unfolding offsets_ascending_def in_document_order_def by (rule sorted_subseq)
qed

text \<open>The anchors of the rules: the start of the first child, and the point after a checkbox.\<close>

lemma first_child_anchor:
  "offset (first_child_start m) = None \<or>
   (node_children m \<noteq> [] \<and>
    offset (first_child_start m) = offset (pointStart (hd (node_children m)))) \<or>
   (node_children m = [] \<and> offset (first_child_start m) = offset (pointEnd m))"
  by (cases "node_children m") (simp_all add: first_child_start_def null_point_def)

lemma content_anchor:
  "offset (content_point m) = None \<or>
   (node_children m \<noteq> [] \<and> offset (content_point m) = offset (pointStart (hd (node_children m)))) \<or>
   (node_children m = [] \<and> offset (content_point m) = offset (pointEnd m))"
  by (cases "node_children m") (simp_all add: content_point_def first_child_start_def)

lemma toPoint_offset: "num off \<le> int (length v) \<Longrightarrow> offset (toPoint v off) = off"
  by (simp add: toPoint_def Let_def)

lemma skip_blanks_inside:
  assumes "0 < num (skip_blanks v initial) - num initial"
  shows "num initial \<le> int (length v)"
proof (rule ccontr)
  assume "\<not> num initial \<le> int (length v)"
  then have "drop (nat (num initial)) v = []" by simp
  then have "skip_blanks v initial = initial" by (simp add: skip_blanks_def)
  with assms show False by simp
qed

lemma checkbox_message_offset:
  "0 < num (skip_blanks v initial) - num initial \<Longrightarrow>
   start_offset (checkbox_message v initial (skip_blanks v initial)) = initial"
  by (simp add: start_offset_def checkbox_message_def message_def toPoint_offset skip_blanks_inside)

lemma positioned_visited:
  assumes "positioned tree" and "n \<in> set (visit tree k)"
  shows "offset (pointStart n) \<noteq> None" and "offset (pointEnd n) \<noteq> None"
    and "node_children n \<noteq> [] \<Longrightarrow> offset (first_child_start n) \<noteq> None"
    and "offset (content_point n) \<noteq> None"
proof -
  from assms(2) have n: "n \<in> set (preorder tree)" by (simp add: visit_preorder)
  with assms(1) show start: "offset (pointStart n) \<noteq> None" and finish: "offset (pointEnd n) \<noteq> None"
    by (simp_all add: positioned_def)
  show first: "offset (first_child_start n) \<noteq> None" if "node_children n \<noteq> []"
  proof -
    from that obtain c1 rest where cs: "node_children n = c1 # rest"
      by (cases "node_children n") auto
    with preorder_child [OF n, of c1] have "c1 \<in> set (preorder tree)" by simp
    with assms(1) cs show ?thesis by (simp add: positioned_def first_child_start_def)
  qed
  show "offset (content_point n) \<noteq> None"
    using finish first by (simp add: content_point_def)
qed

section \<open>Generated nodes\<close>

text \<open>
  C3. The test the rules call on the node they visit is \<open>generated\<close>: the node has no
  position, or a start or an end without a line or a column. Every visitor leaves its
  state, and so the messages, as they are on such a node, and does not fail; and every
  message of a rule is the message on a visited node that is not such a node: its place is
  that node (code-block-style, maximum-heading-length, no-duplicate-headings), the start of
  the first child of that node (blockquote-indentation) or the blanks at the content of
  that node (checkbox-content-indent). The one message with no place is the configuration
  error of code-block-style.
\<close>

theorem generated_nodes_are_skipped:
  "(generated n \<longrightarrow>
      code_visitor v n cst = cst \<and> blockquote_visitor n bst = bst \<and>
      heading_length_visitor k n ms = ms \<and> duplicate_visitor n dst = dst \<and>
      checkbox_visitor v n ms = ms) \<and>
   (\<forall>d \<in> set (messages_of (codeBlockStyle tree v option)).
      place d = NoPlace \<or> (\<exists>m \<in> set (visit tree ''code''). \<not> generated m \<and> place d = AtNode m)) \<and>
   (\<forall>d \<in> set (blockquoteIndentation tree option).
      \<exists>m \<in> set (visit tree ''blockquote''). \<not> generated m \<and> node_children m \<noteq> [] \<and>
        place d = AtPoint (first_child_start m)) \<and>
   (\<forall>d \<in> set (remarkLintMaximumHeadingLength tree option).
      \<exists>m \<in> set (visit tree ''heading''). \<not> generated m \<and> place d = AtNode m) \<and>
   (\<forall>d \<in> set (remarkLintNoDuplicateHeadings tree).
      \<exists>m \<in> set (visit tree ''heading''). \<not> generated m \<and> place d = AtNode m) \<and>
   (\<forall>d \<in> set (remarkLintCheckboxContentIndent tree v).
      \<exists>m \<in> set (visit tree ''listItem''). \<not> generated m \<and>
        d = checkbox_message v (offset (content_point m)) (skip_blanks v (offset (content_point m))))"
proof -
  have skip: "code_visitor v n cst = cst \<and> blockquote_visitor n bst = bst \<and>
      heading_length_visitor k n ms = ms \<and> duplicate_visitor n dst = dst \<and>
      checkbox_visitor v n ms = ms" if "generated n"
    using that
    by (cases cst, cases bst, cases dst) (simp add: heading_length_visitor_def checkbox_visitor_def)
  have code: "place d = NoPlace \<or>
      (\<exists>m \<in> set (visit tree ''code''). \<not> generated m \<and> place d = AtNode m)"
    if "d \<in> set (messages_of (codeBlockStyle tree v option))" for d
  proof (cases "codeBlockStyle tree v option")
    case (Inl e)
    with that have "d = fail (incorrect_style (case option of
        Str s \<Rightarrow> if s \<noteq> ''consistent'' then Some s else None | _ \<Rightarrow> None))"
      by (auto simp: messages_of_def codeBlockStyle_def Let_def split: if_splits)
    then show ?thesis by (simp add: fail_def)
  next
    case (Inr ds)
    from codeBlockStyle_emits [OF Inr] obtain nds where
      "ds = map snd nds" "subseq (map fst nds) (visit tree ''code'')"
      "\<forall>(n, d) \<in> set nds. \<not> generated n \<and> place d = AtNode n"
      by blast
    with emitted_from_visited [of nds "visit tree ''code''"
        "\<lambda>n d. \<not> generated n \<and> place d = AtNode n" d] that Inr
    show ?thesis by (simp add: messages_of_def)
  qed
  have quote: "\<exists>m \<in> set (visit tree ''blockquote''). \<not> generated m \<and> node_children m \<noteq> [] \<and>
      place d = AtPoint (first_child_start m)"
    if "d \<in> set (blockquoteIndentation tree option)" for d
  proof -
    from blockquoteIndentation_emits [of tree option] obtain nds where
      "blockquoteIndentation tree option = map snd nds"
      "subseq (map fst nds) (visit tree ''blockquote'')"
      "\<forall>(n, d) \<in> set nds. \<not> generated n \<and> node_children n \<noteq> [] \<and>
         place d = AtPoint (first_child_start n)"
      by blast
    with emitted_from_visited [of nds "visit tree ''blockquote''"
        "\<lambda>n d. \<not> generated n \<and> node_children n \<noteq> [] \<and> place d = AtPoint (first_child_start n)" d]
      that
    show ?thesis by auto
  qed
  have heading: "\<exists>m \<in> set (visit tree ''heading''). \<not> generated m \<and> place d = AtNode m"
    if "d \<in> set (remarkLintMaximumHeadingLength tree option)" for d
  proof -
    from remarkLintMaximumHeadingLength_emits [of tree option] obtain nds where
      "remarkLintMaximumHeadingLength tree option = map snd nds"
      "subseq (map fst nds) (visit tree ''heading'')"
      "\<forall>(n, d) \<in> set nds. \<not> generated n \<and> place d = AtNode n"
      by blast
    with emitted_from_visited [of nds "visit tree ''heading''"
        "\<lambda>n d. \<not> generated n \<and> place d = AtNode n" d] that
    show ?thesis by simp
  qed
  have duplicate: "\<exists>m \<in> set (visit tree ''heading''). \<not> generated m \<and> place d = AtNode m"
    if "d \<in> set (remarkLintNoDuplicateHeadings tree)" for d
  proof -
    from remarkLintNoDuplicateHeadings_emits [of tree] obtain nds where
      "remarkLintNoDuplicateHeadings tree = map snd nds"
      "subseq (map fst nds) (visit tree ''heading'')"
      "\<forall>(n, d) \<in> set nds. \<not> generated n \<and> place d = AtNode n"
      by blast
    with emitted_from_visited [of nds "visit tree ''heading''"
        "\<lambda>n d. \<not> generated n \<and> place d = AtNode n" d] that
    show ?thesis by simp
  qed
  have checkbox: "\<exists>m \<in> set (visit tree ''listItem''). \<not> generated m \<and>
      d = checkbox_message v (offset (content_point m)) (skip_blanks v (offset (content_point m)))"
    if "d \<in> set (remarkLintCheckboxContentIndent tree v)" for d
  proof -
    let ?Q = "\<lambda>n d. \<not> generated n \<and>
        0 < num (skip_blanks v (offset (content_point n))) - num (offset (content_point n)) \<and>
        d = checkbox_message v (offset (content_point n))
              (skip_blanks v (offset (content_point n)))"
    from remarkLintCheckboxContentIndent_emits [of tree v] obtain nds where
      "remarkLintCheckboxContentIndent tree v = map snd nds"
      "subseq (map fst nds) (visit tree ''listItem'')"
      "\<forall>(n, d) \<in> set nds. ?Q n d"
      by blast
    with emitted_from_visited [of nds "visit tree ''listItem''" ?Q d] that
    show ?thesis by auto
  qed
  from skip code quote heading duplicate checkbox show ?thesis by blast
qed

theorem generated_nodes_are_skipped_witness:
  "generated generated_heading \<and>
   visit generated_doc ''heading'' = [generated_heading, foo_first, foo_second] \<and>
   duplicate_visitor generated_heading (Map.empty, []) = (Map.empty, []) \<and>
   heading_length_visitor (Finite 2) generated_heading [] = [] \<and>
   remarkLintNoDuplicateHeadings generated_doc = [duplicate_message foo_first foo_second] \<and>
   remarkLintMaximumHeadingLength generated_doc (Num 2) =
     [length_message (Finite 2) foo_first, length_message (Finite 2) foo_second]"
proof -
  have facts: "generated generated_heading"
    "visit generated_doc ''heading'' = [generated_heading, foo_first, foo_second]"
    "remarkLintNoDuplicateHeadings generated_doc = [duplicate_message foo_first foo_second]"
    "remarkLintMaximumHeadingLength generated_doc (Num 2) =
       [length_message (Finite 2) foo_first, length_message (Finite 2) foo_second]"
    by code_simp+
  from generated_nodes_are_skipped
         [of generated_heading code_text "(None, [])" "(None, [])" "Finite 2" "[]" "(Map.empty, [])"
            generated_doc "Num 2"] facts(1)
  have "duplicate_visitor generated_heading (Map.empty, []) = (Map.empty, [])"
    and "heading_length_visitor (Finite 2) generated_heading [] = []"
    by blast+
  with facts show ?thesis by simp
qed

text \<open>
  The claim as it is written counts among the generated nodes, with the node classifier of
  the specification, a node whose offsets cannot be resolved in the source text. The rules
  do not test the offsets. On the tree of a text that has been replaced since, the code
  block has a line and a column at both ends and offsets beyond the text: it is generated
  for the classifier and not for the rules, and code-block-style with the option
  \<^verbatim>\<open>fenced\<close> reports it.
\<close>

theorem unresolvable_offsets_counterexample:
  "isGenerated stale_text stale_code \<and> \<not> generated stale_code \<and>
   visit stale_doc ''code'' = [stale_code] \<and>
   codeBlockStyle stale_doc stale_text (Str ''fenced'') =
     Inr [message ''Code blocks should be fenced'' (AtNode stale_code)]"
  by code_simp

text \<open>
  The place of a message of blockquote-indentation is the start of the first child of the
  block quote, and the rule calls the test on the block quote only. When the block quote
  has a position and its first child has none, the message has a point without line,
  column and offset.
\<close>

lemma first_child_is_not_tested:
  "\<not> generated quote_unplaced"
  "generated (hd (node_children quote_unplaced))"
  "blockquoteIndentation unplaced_doc (Num 2) =
     [message ''Add 3 spaces between block quote and content'' (AtPoint null_point)]"
  by code_simp+

section \<open>The order of the messages\<close>

text \<open>
  C8. On a tree that follows the order of its document, the messages of each rule start
  at ascending offsets: a message never starts before one that was appended earlier. When
  every node of the tree has its offsets, every message of a rule has a start offset.
\<close>

theorem diagnostics_in_offset_order:
  assumes "in_document_order tree"
  shows "offsets_ascending (messages_of (codeBlockStyle tree v option)) \<and>
         offsets_ascending (blockquoteIndentation tree option) \<and>
         offsets_ascending (remarkLintMaximumHeadingLength tree option) \<and>
         offsets_ascending (remarkLintNoDuplicateHeadings tree) \<and>
         offsets_ascending (remarkLintCheckboxContentIndent tree v) \<and>
         (positioned tree \<longrightarrow>
            (\<forall>ds. codeBlockStyle tree v option = Inr ds \<longrightarrow> located ds) \<and>
            located (blockquoteIndentation tree option) \<and>
            located (remarkLintMaximumHeadingLength tree option) \<and>
            located (remarkLintNoDuplicateHeadings tree) \<and>
            located (remarkLintCheckboxContentIndent tree v))"
proof -
  let ?start = "\<lambda>m. offset (pointStart m)"
  let ?first = "\<lambda>m. offset (first_child_start m)"
  let ?content = "\<lambda>m. offset (content_point m)"
  let ?at_node = "\<lambda>n d. \<not> generated n \<and> place d = AtNode n"
  let ?at_child = "\<lambda>n d. \<not> generated n \<and> node_children n \<noteq> [] \<and>
      place d = AtPoint (first_child_start n)"
  let ?at_content = "\<lambda>n d. \<not> generated n \<and>
      0 < num (skip_blanks v (offset (content_point n))) - num (offset (content_point n)) \<and>
      d = checkbox_message v (offset (content_point n)) (skip_blanks v (offset (content_point n)))"
  have walk_start: "subseq (concat (map (\<lambda>m. mark (?start m)) (preorder tree))) (marks tree)"
    by (rule starts_in_marks)
  have walk_first: "subseq (concat (map (\<lambda>m. mark (?first m)) (preorder tree))) (marks tree)"
    using anchors_in_marks [of ?first tree, OF first_child_anchor] by (rule subseq_suffix)
  have walk_content: "subseq (concat (map (\<lambda>m. mark (?content m)) (preorder tree))) (marks tree)"
    using anchors_in_marks [of ?content tree, OF content_anchor] by (rule subseq_suffix)
  have node_order: "offsets_ascending (map snd nds)"
    if "subseq (map fst nds) (visit tree k)" "\<forall>(n, d) \<in> set nds. ?at_node n d" for nds k
    using assms walk_start that(1)
  proof (rule ascending_from_anchors)
    show "start_offset d = ?start n" if "(n, d) \<in> set nds" for n d
      using that \<open>\<forall>(n, d) \<in> set nds. ?at_node n d\<close> by (auto simp: start_offset_def)
  qed
  have node_located: "located (map snd nds)"
    if "positioned tree" "subseq (map fst nds) (visit tree k)"
      "\<forall>(n, d) \<in> set nds. ?at_node n d" for nds k
    unfolding located_def
  proof
    fix d assume "d \<in> set (map snd nds)"
    with emitted_from_visited [OF that(2,3)] obtain n where
      "n \<in> set (visit tree k)" "place d = AtNode n"
      by blast
    with positioned_visited(1) [OF that(1)] show "start_offset d \<noteq> None"
      by (simp add: start_offset_def)
  qed
  obtain quotes where quotes: "blockquoteIndentation tree option = map snd quotes"
    "subseq (map fst quotes) (visit tree ''blockquote'')" "\<forall>(n, d) \<in> set quotes. ?at_child n d"
    using blockquoteIndentation_emits [of tree option] by blast
  obtain longs where longs: "remarkLintMaximumHeadingLength tree option = map snd longs"
    "subseq (map fst longs) (visit tree ''heading'')" "\<forall>(n, d) \<in> set longs. ?at_node n d"
    using remarkLintMaximumHeadingLength_emits [of tree option] by blast
  obtain dups where dups: "remarkLintNoDuplicateHeadings tree = map snd dups"
    "subseq (map fst dups) (visit tree ''heading'')" "\<forall>(n, d) \<in> set dups. ?at_node n d"
    using remarkLintNoDuplicateHeadings_emits [of tree] by blast
  obtain boxes where boxes: "remarkLintCheckboxContentIndent tree v = map snd boxes"
    "subseq (map fst boxes) (visit tree ''listItem'')" "\<forall>(n, d) \<in> set boxes. ?at_content n d"
    using remarkLintCheckboxContentIndent_emits [of tree v] by blast
  have code: "offsets_ascending (messages_of (codeBlockStyle tree v option))"
  proof (cases "codeBlockStyle tree v option")
    case (Inl e)
    then show ?thesis
      by (simp add: messages_of_def offsets_ascending_def start_offsets_def mark_def
          split: option.splits)
  next
    case (Inr ds)
    from codeBlockStyle_emits [OF Inr] obtain nds where
      "ds = map snd nds" "subseq (map fst nds) (visit tree ''code'')"
      "\<forall>(n, d) \<in> set nds. ?at_node n d"
      by blast
    with node_order [of nds "''code''"] Inr show ?thesis by (simp add: messages_of_def)
  qed
  have code_located: "located ds" if "positioned tree" "codeBlockStyle tree v option = Inr ds" for ds
  proof -
    from codeBlockStyle_emits [OF that(2)] obtain nds where
      "ds = map snd nds" "subseq (map fst nds) (visit tree ''code'')"
      "\<forall>(n, d) \<in> set nds. ?at_node n d"
      by blast
    with node_located [OF that(1), of nds "''code''"] show ?thesis by simp
  qed
  have quote: "offsets_ascending (blockquoteIndentation tree option)"
    unfolding quotes(1) using assms walk_first quotes(2)
  proof (rule ascending_from_anchors)
    show "start_offset d = ?first n" if "(n, d) \<in> set quotes" for n d
      using that quotes(3) by (auto simp: start_offset_def)
  qed
  have quote_located: "located (blockquoteIndentation tree option)" if "positioned tree"
    unfolding located_def quotes(1)
  proof
    fix d assume "d \<in> set (map snd quotes)"
    with emitted_from_visited [OF quotes(2,3)] obtain n where
      "n \<in> set (visit tree ''blockquote'')" "node_children n \<noteq> []"
      "place d = AtPoint (first_child_start n)"
      by blast
    with positioned_visited(3) [OF that] show "start_offset d \<noteq> None"
      by (simp add: start_offset_def)
  qed
  have checkbox: "offsets_ascending (remarkLintCheckboxContentIndent tree v)"
    unfolding boxes(1) using assms walk_content boxes(2)
  proof (rule ascending_from_anchors)
    show "start_offset d = ?content n" if "(n, d) \<in> set boxes" for n d
      using that boxes(3) checkbox_message_offset [of v "offset (content_point n)"] by auto
  qed
  have checkbox_located: "located (remarkLintCheckboxContentIndent tree v)" if "positioned tree"
    unfolding located_def boxes(1)
  proof
    fix d assume "d \<in> set (map snd boxes)"
    with emitted_from_visited [OF boxes(2,3)] obtain n where
      n: "n \<in> set (visit tree ''listItem'')"
        "0 < num (skip_blanks v (offset (content_point n))) - num (offset (content_point n))"
        "d = checkbox_message v (offset (content_point n)) (skip_blanks v (offset (content_point n)))"
      by blast
    from checkbox_message_offset [OF n(2)] n(3) positioned_visited(4) [OF that n(1)]
    show "start_offset d \<noteq> None" by simp
  qed
  show ?thesis
    using code code_located quote quote_located checkbox checkbox_located
      node_order [OF longs(2,3)] node_located [OF _ longs(2,3)]
      node_order [OF dups(2,3)] node_located [OF _ dups(2,3)]
    unfolding longs(1) dups(1) by blast
qed

lemma examples_in_document_order:
  "in_document_order code_doc" "in_document_order quote_doc" "in_document_order foo_upper_doc"
  "in_document_order checkbox_doc" "in_document_order sectioned_doc"
  "positioned checkbox_doc"
  by code_simp+

lemma example_offsets:
  "start_offsets (messages_of (codeBlockStyle code_doc code_text (Str ''null''))) = [0, 26]"
  "start_offsets (blockquoteIndentation quote_doc Undefined) = [25, 46]"
  "start_offsets (remarkLintMaximumHeadingLength foo_upper_doc (Num 2)) = [0, 7, 15]"
  "start_offsets (remarkLintNoDuplicateHeadings sectioned_doc) = [7, 15]"
  "map start_offset (remarkLintCheckboxContentIndent checkbox_doc checkbox_text) =
     [Some 22, Some 39, Some 57]"
  by code_simp+

theorem diagnostics_in_offset_order_witness:
  "in_document_order checkbox_doc \<and> positioned checkbox_doc \<and>
   map start_offset (remarkLintCheckboxContentIndent checkbox_doc checkbox_text) =
     [Some 22, Some 39, Some 57] \<and>
   offsets_ascending (remarkLintCheckboxContentIndent checkbox_doc checkbox_text) \<and>
   located (remarkLintCheckboxContentIndent checkbox_doc checkbox_text) \<and>
   in_document_order sectioned_doc \<and>
   start_offsets (remarkLintNoDuplicateHeadings sectioned_doc) = [7, 15] \<and>
   offsets_ascending (remarkLintNoDuplicateHeadings sectioned_doc)"
  using diagnostics_in_offset_order [OF examples_in_document_order(4), of checkbox_text Undefined]
    diagnostics_in_offset_order [OF examples_in_document_order(5), of checkbox_text Undefined]
  by (simp add: examples_in_document_order example_offsets)

text \<open>
  The rules append their messages in the order of the traversal and do not sort them: on a
  tree whose headings were exchanged after parsing, the offsets of the messages are not
  ascending.
\<close>

lemma exchanged_headings_not_ascending:
  "\<not> in_document_order exchanged_doc"
  "start_offsets (remarkLintMaximumHeadingLength exchanged_doc (Num 2)) = [7, 0, 15]"
  "\<not> offsets_ascending (remarkLintMaximumHeadingLength exchanged_doc (Num 2))"
  by code_simp+

section \<open>Duplicate headings\<close>

text \<open>
  The table of the letters: 56 small letters, each with the capital 32 code units below
  it; no character is in it twice, and the sharp s is not in it.
\<close>

lemma letters_capitals:
  "length letters = 56"
  "list_all (\<lambda>(c, d). (of_char c :: nat) = of_char d + 32) letters"
  by code_simp+

lemma letters_distinct:
  "distinct (map fst letters)" "set (map fst letters) \<inter> set (map snd letters) = {}"
  "distinct (map snd letters)"
  "sharp_s \<notin> set (map fst letters)" "sharp_s \<notin> set (map snd letters)"
  by code_simp+

lemma upper_char_pair:
  assumes "(c, d) \<in> set letters"
  shows "upper_char c = d" and "upper_char d = d"
proof -
  from letters_distinct(1) assms have "map_of letters c = Some d"
    by (rule map_of_is_SomeI)
  then show "upper_char c = d" by (simp add: upper_char_def)
  from assms have "d \<in> set (map snd letters)" by force
  with letters_distinct(2) have "d \<notin> fst ` set letters" by auto
  then have "map_of letters d = None" by (simp add: map_of_eq_None_iff)
  then show "upper_char d = d" by (simp add: upper_char_def)
qed

lemma upper_same_letter: "same_letter c d \<Longrightarrow> upper_char c = upper_char d"
  unfolding same_letter_def using upper_char_pair [of c d] upper_char_pair [of d c] by auto

lemma sharp_same_letter: "same_letter c d \<Longrightarrow> c = sharp_s \<longleftrightarrow> d = sharp_s"
proof -
  have "c \<noteq> sharp_s \<and> d \<noteq> sharp_s" if "(c, d) \<in> set letters" for c d
  proof -
    from that have "c \<in> set (map fst letters)" and "d \<in> set (map snd letters)"
      by force+
    with letters_distinct(4,5) show ?thesis by blast
  qed
  then show "same_letter c d \<Longrightarrow> c = sharp_s \<longleftrightarrow> d = sharp_s"
    unfolding same_letter_def by blast
qed

lemma upper_chars_same_letter: "same_letter c d \<Longrightarrow> upper_chars c = upper_chars d"
  using sharp_same_letter [of c d] upper_same_letter [of c d] by (simp add: upper_chars_def)

lemma upper_differ_in_case_only: "differ_in_case_only s t \<Longrightarrow> toUpperCase s = toUpperCase t"
  unfolding differ_in_case_only_def toUpperCase_def
  by (induction rule: list_all2_induct) (simp_all add: upper_chars_same_letter)

text \<open>
  Conversely, two characters with the same capital are the same letter, and two texts
  without a sharp s that have the same upper-case form differ in letter case only.
\<close>

lemma same_capital:
  assumes "upper_char c = upper_char d"
  shows "same_letter c d"
proof (cases "map_of letters c")
  case None
  note c = this
  show ?thesis
  proof (cases "map_of letters d")
    case None
    with c assms show ?thesis by (simp add: upper_char_def same_letter_def)
  next
    case (Some u)
    with c assms have "u = c" by (simp add: upper_char_def)
    with Some have "(d, c) \<in> set letters" by (simp add: map_of_SomeD)
    then show ?thesis by (simp add: same_letter_def)
  qed
next
  case (Some u)
  note c = this
  then have cu: "(c, u) \<in> set letters" by (rule map_of_SomeD)
  show ?thesis
  proof (cases "map_of letters d")
    case None
    with c assms have "u = d" by (simp add: upper_char_def)
    with cu show ?thesis by (simp add: same_letter_def)
  next
    case (Some u')
    with c assms have "u' = u" by (simp add: upper_char_def)
    with Some have du: "(d, u) \<in> set letters" by (simp add: map_of_SomeD)
    from letters_distinct(3) have "inj_on snd (set letters)"
      by (simp add: distinct_map)
    from inj_onD [OF this _ cu du] have "c = d" by simp
    then show ?thesis by (simp add: same_letter_def)
  qed
qed

lemma upper_without_sharp_s: "sharp_s \<notin> set s \<Longrightarrow> toUpperCase s = map upper_char s"
  by (induction s) (auto simp: toUpperCase_def upper_chars_def)

lemma same_capitals: "map upper_char s = map upper_char t \<Longrightarrow> list_all2 same_letter s t"
proof (induction s arbitrary: t)
  case Nil
  then show ?case by simp
next
  case (Cons c s)
  then obtain d t' where t: "t = d # t'" by (cases t) auto
  with Cons.prems have "upper_char c = upper_char d" and "map upper_char s = map upper_char t'"
    by simp_all
  with Cons.IH [of t'] same_capital [of c d] t show ?case by simp
qed

lemma upper_equal_differ_in_case_only:
  assumes "sharp_s \<notin> set s" and "sharp_s \<notin> set t" and "toUpperCase s = toUpperCase t"
  shows "differ_in_case_only s t"
  using assms same_capitals [of s t]
  by (simp add: upper_without_sharp_s differ_in_case_only_def)

lemma toUpperCase_Foo: "toUpperCase ''Foo'' = ''FOO''"
  by code_simp

text \<open>
  The object \<^verbatim>\<open>map\<close> holds, at every key, the most recent of the headings seen so far with
  that text in upper case.
\<close>

lemma duplicate_fold:
  assumes "\<And>key. seen key = find (\<lambda>m. normalized m = key) earlier"
  shows "snd (fold duplicate_visitor ns (seen, msgs)) =
     msgs @ duplicate_verdicts earlier (filter (\<lambda>n. \<not> generated n) ns)"
  using assms
proof (induction ns arbitrary: seen earlier msgs)
  case Nil
  then show ?case by simp
next
  case (Cons n ns)
  show ?case
  proof (cases "generated n")
    case True
    with Cons show ?thesis by simp
  next
    case False
    let ?seen = "seen(normalized n \<mapsto> n)"
    let ?new = "case find (\<lambda>m. normalized m = normalized n) earlier of
        None \<Rightarrow> [] | Some d \<Rightarrow> [duplicate_message d n]"
    have step: "duplicate_visitor n (seen, msgs) = (?seen, msgs @ ?new)"
      using False Cons.prems [of "normalized n"]
      by (simp add: Let_def normalized_def split: option.splits)
    have inv: "?seen key = find (\<lambda>m. normalized m = key) (n # earlier)" for key
      using Cons.prems [of key] by simp
    have "snd (fold duplicate_visitor (n # ns) (seen, msgs)) =
        snd (fold duplicate_visitor ns (?seen, msgs @ ?new))"
      using step by simp
    also have "\<dots> = (msgs @ ?new) @
        duplicate_verdicts (n # earlier) (filter (\<lambda>n. \<not> generated n) ns)"
      by (rule Cons.IH [OF inv])
    also have "\<dots> = msgs @ duplicate_verdicts earlier (filter (\<lambda>n. \<not> generated n) (n # ns))"
      using False by simp
    finally show ?thesis .
  qed
qed

lemma duplicate_verdicts_at:
  assumes "j < length hs"
    and "find (\<lambda>m. normalized m = normalized (hs ! j)) (rev (take j hs) @ earlier) = Some d"
  shows "duplicate_message d (hs ! j) \<in> set (duplicate_verdicts earlier hs)"
  using assms
proof (induction hs arbitrary: j earlier)
  case Nil
  then show ?case by simp
next
  case (Cons h hs)
  show ?case
  proof (cases j)
    case 0
    with Cons.prems show ?thesis by simp
  next
    case (Suc i)
    with Cons.prems have "i < length hs"
      and "find (\<lambda>m. normalized m = normalized (hs ! i)) (rev (take i hs) @ (h # earlier)) = Some d"
      by simp_all
    from Cons.IH [OF this] Suc show ?thesis by simp
  qed
qed

lemma duplicate_verdicts_from:
  assumes "d \<in> set (duplicate_verdicts earlier hs)"
  shows "\<exists>j m. j < length hs \<and>
     find (\<lambda>m. normalized m = normalized (hs ! j)) (rev (take j hs) @ earlier) = Some m \<and>
     d = duplicate_message m (hs ! j)"
  using assms
proof (induction hs arbitrary: earlier)
  case Nil
  then show ?case by simp
next
  case (Cons h hs)
  show ?case
  proof (cases "d \<in> set (duplicate_verdicts (h # earlier) hs)")
    case True
    from Cons.IH [OF this] obtain j m where
      j: "j < length hs"
        "find (\<lambda>m. normalized m = normalized (hs ! j)) (rev (take j hs) @ (h # earlier)) = Some m"
        "d = duplicate_message m (hs ! j)"
      by blast
    then show ?thesis
      by (intro exI [of _ "Suc j"] exI [of _ m]) simp
  next
    case False
    with Cons.prems have "d \<in> set (case find (\<lambda>m. normalized m = normalized h) earlier of
        None \<Rightarrow> [] | Some m \<Rightarrow> [duplicate_message m h])"
      by simp
    then obtain m where
      "find (\<lambda>m. normalized m = normalized h) earlier = Some m" "d = duplicate_message m h"
      by (cases "find (\<lambda>m. normalized m = normalized h) earlier") simp_all
    then show ?thesis
      by (intro exI [of _ 0] exI [of _ m]) simp
  qed
qed

lemma find_earlier:
  assumes "find P (rev (take j hs)) = Some m" and "j < length hs"
  shows "\<exists>i. i < j \<and> m = hs ! i \<and> P m"
proof -
  have "P m \<and> m \<in> set xs" if "find P xs = Some m" for xs
    using that by (induction xs) (auto split: if_splits)
  from this [OF assms(1)] have "P m" and "m \<in> set (take j hs)"
    by simp_all
  from this(2) obtain i where "i < length (take j hs)" "take j hs ! i = m"
    by (auto simp: in_set_conv_nth)
  with assms(2) have "i < j" "m = hs ! i" by simp_all
  with \<open>P m\<close> show ?thesis by blast
qed

lemma find_most_recent:
  assumes "i < j" and "j \<le> length hs" and "P (hs ! i)"
  shows "\<exists>k. i \<le> k \<and> k < j \<and> P (hs ! k) \<and> (\<forall>k'. k < k' \<and> k' < j \<longrightarrow> \<not> P (hs ! k')) \<and>
     find P (rev (take j hs)) = Some (hs ! k)"
  using assms
proof (induction j)
  case 0
  then show ?case by simp
next
  case (Suc j)
  from Suc.prems have j: "j < length hs" by simp
  then have shape: "rev (take (Suc j) hs) = hs ! j # rev (take j hs)"
    by (simp add: take_Suc_conv_app_nth)
  show ?case
  proof (cases "P (hs ! j)")
    case True
    have "\<forall>k'. j < k' \<and> k' < Suc j \<longrightarrow> \<not> P (hs ! k')"
      by (auto simp: less_Suc_eq)
    moreover have "find P (rev (take (Suc j) hs)) = Some (hs ! j)"
      using True shape by simp
    moreover have "i \<le> j"
      using Suc.prems(1) by simp
    ultimately show ?thesis using True by (intro exI [of _ j]) simp
  next
    case False
    with Suc.prems have "i < j" by (cases "i = j") auto
    from Suc.IH [OF this] j Suc.prems(3) obtain k where
      k: "i \<le> k" "k < j" "P (hs ! k)" "\<forall>k'. k < k' \<and> k' < j \<longrightarrow> \<not> P (hs ! k')"
        "find P (rev (take j hs)) = Some (hs ! k)"
      by auto
    have "\<forall>k'. k < k' \<and> k' < Suc j \<longrightarrow> \<not> P (hs ! k')"
      using k(4) False by (auto simp: less_Suc_eq)
    moreover have "find P (rev (take (Suc j) hs)) = Some (hs ! k)"
      using shape False k(5) by simp
    ultimately show ?thesis using k(1-3) by (intro exI [of _ k]) simp
  qed
qed

text \<open>
  C10. The rule is the comparison of the headings that are not generated by their text in
  upper case: a heading is reported when an earlier one has the same text in upper case,
  in particular when the two texts differ in letter case only, and its message names the
  start of the most recent such heading, whether or not it is the first. Nothing else is
  reported: every message is on a heading with an earlier heading of the same text in
  upper case, and the two texts, when neither has a sharp s, differ in letter case only.
\<close>

theorem duplicates_compared_in_upper_case:
  assumes "hs = filter (\<lambda>n. \<not> generated n) (visit tree ''heading'')"
  shows "remarkLintNoDuplicateHeadings tree = duplicate_verdicts [] hs \<and>
     (\<forall>i j. i < j \<and> j < length hs \<and> differ_in_case_only (toString (hs ! i)) (toString (hs ! j)) \<longrightarrow>
        (\<exists>d \<in> set (remarkLintNoDuplicateHeadings tree). place d = AtNode (hs ! j))) \<and>
     (\<forall>i j. i < j \<and> j < length hs \<and> normalized (hs ! i) = normalized (hs ! j) \<longrightarrow>
        (\<exists>k. i \<le> k \<and> k < j \<and> normalized (hs ! k) = normalized (hs ! j) \<and>
           (\<forall>k'. k < k' \<and> k' < j \<longrightarrow> normalized (hs ! k') \<noteq> normalized (hs ! j)) \<and>
           duplicate_message (hs ! k) (hs ! j) \<in> set (remarkLintNoDuplicateHeadings tree))) \<and>
     (\<forall>d \<in> set (remarkLintNoDuplicateHeadings tree).
        \<exists>i j. i < j \<and> j < length hs \<and> d = duplicate_message (hs ! i) (hs ! j) \<and>
          normalized (hs ! i) = normalized (hs ! j) \<and>
          (sharp_s \<notin> set (toString (hs ! i)) \<and> sharp_s \<notin> set (toString (hs ! j)) \<longrightarrow>
             differ_in_case_only (toString (hs ! i)) (toString (hs ! j))))"
proof -
  have rule: "remarkLintNoDuplicateHeadings tree = duplicate_verdicts [] hs"
    using duplicate_fold [of Map.empty "[]" "visit tree ''heading''" "[]"] assms
    by (simp add: remarkLintNoDuplicateHeadings_def)
  have recent: "\<exists>k. i \<le> k \<and> k < j \<and> normalized (hs ! k) = normalized (hs ! j) \<and>
      (\<forall>k'. k < k' \<and> k' < j \<longrightarrow> normalized (hs ! k') \<noteq> normalized (hs ! j)) \<and>
      duplicate_message (hs ! k) (hs ! j) \<in> set (duplicate_verdicts [] hs)"
    if "i < j" "j < length hs" "normalized (hs ! i) = normalized (hs ! j)" for i j
  proof -
    let ?P = "\<lambda>m. normalized m = normalized (hs ! j)"
    from find_most_recent [of i j hs ?P] that obtain k where
      k: "i \<le> k" "k < j" "?P (hs ! k)" "\<forall>k'. k < k' \<and> k' < j \<longrightarrow> \<not> ?P (hs ! k')"
        "find ?P (rev (take j hs)) = Some (hs ! k)"
      by auto
    from duplicate_verdicts_at [of j hs "[]" "hs ! k"] that(2) k(5)
    have "duplicate_message (hs ! k) (hs ! j) \<in> set (duplicate_verdicts [] hs)" by simp
    with k(1-4) show ?thesis by (intro exI [of _ k]) simp
  qed
  have reported: "\<exists>d \<in> set (duplicate_verdicts [] hs). place d = AtNode (hs ! j)"
    if "i < j" "j < length hs" "differ_in_case_only (toString (hs ! i)) (toString (hs ! j))" for i j
  proof -
    from that(3) have "normalized (hs ! i) = normalized (hs ! j)"
      by (simp add: normalized_def upper_differ_in_case_only)
    from recent [OF that(1,2) this] obtain k where
      "duplicate_message (hs ! k) (hs ! j) \<in> set (duplicate_verdicts [] hs)"
      by blast
    moreover have "place (duplicate_message (hs ! k) (hs ! j)) = AtNode (hs ! j)"
      by (simp add: duplicate_message_def message_def)
    ultimately show ?thesis by blast
  qed
  have only: "\<exists>i j. i < j \<and> j < length hs \<and> d = duplicate_message (hs ! i) (hs ! j) \<and>
      normalized (hs ! i) = normalized (hs ! j) \<and>
      (sharp_s \<notin> set (toString (hs ! i)) \<and> sharp_s \<notin> set (toString (hs ! j)) \<longrightarrow>
         differ_in_case_only (toString (hs ! i)) (toString (hs ! j)))"
    if "d \<in> set (duplicate_verdicts [] hs)" for d
  proof -
    from duplicate_verdicts_from [OF that] obtain j m where
      j: "j < length hs"
        "find (\<lambda>m. normalized m = normalized (hs ! j)) (rev (take j hs)) = Some m"
        "d = duplicate_message m (hs ! j)"
      by auto
    from find_earlier [OF j(2,1)] obtain i where
      i: "i < j" "m = hs ! i" "normalized m = normalized (hs ! j)"
      by blast
    have "differ_in_case_only (toString (hs ! i)) (toString (hs ! j))"
      if "sharp_s \<notin> set (toString (hs ! i))" "sharp_s \<notin> set (toString (hs ! j))"
      using that i(2,3) by (simp add: normalized_def upper_equal_differ_in_case_only)
    with i j show ?thesis
      by (intro exI [of _ i] exI [of _ j]) simp
  qed
  from recent reported only show ?thesis unfolding rule by blast
qed

lemma foo_upper_headings:
  "filter (\<lambda>n. \<not> generated n) (visit foo_upper_doc ''heading'') = [foo_first, foo_second, foo_upper]"
  "differ_in_case_only (toString foo_second) (toString foo_upper)"
  "duplicate_verdicts [] [foo_first, foo_second, foo_upper] =
     [message ''Do not use headings with similar content (1:1)'' (AtNode foo_second),
      message ''Do not use headings with similar content (3:1)'' (AtNode foo_upper)]"
  by code_simp+

lemma cafe_headings:
  "filter (\<lambda>n. \<not> generated n) (visit cafe_doc ''heading'') = [cafe_small, cafe_capital]"
  "differ_in_case_only (toString cafe_small) (toString cafe_capital)"
  "duplicate_verdicts [] [cafe_small, cafe_capital] =
     [message ''Do not use headings with similar content (1:1)'' (AtNode cafe_capital)]"
  by code_simp+

theorem duplicates_compared_in_upper_case_witness:
  "filter (\<lambda>n. \<not> generated n) (visit foo_upper_doc ''heading'') = [foo_first, foo_second, foo_upper] \<and>
   differ_in_case_only (toString foo_second) (toString foo_upper) \<and>
   remarkLintNoDuplicateHeadings foo_upper_doc =
     [message ''Do not use headings with similar content (1:1)'' (AtNode foo_second),
      message ''Do not use headings with similar content (3:1)'' (AtNode foo_upper)] \<and>
   filter (\<lambda>n. \<not> generated n) (visit cafe_doc ''heading'') = [cafe_small, cafe_capital] \<and>
   differ_in_case_only (toString cafe_small) (toString cafe_capital) \<and>
   remarkLintNoDuplicateHeadings cafe_doc =
     [message ''Do not use headings with similar content (1:1)'' (AtNode cafe_capital)]"
proof -
  have "remarkLintNoDuplicateHeadings foo_upper_doc =
      duplicate_verdicts [] [foo_first, foo_second, foo_upper]"
    using duplicates_compared_in_upper_case [OF foo_upper_headings(1) [symmetric]]
    by (rule conjunct1)
  then have foo: "remarkLintNoDuplicateHeadings foo_upper_doc =
      [message ''Do not use headings with similar content (1:1)'' (AtNode foo_second),
       message ''Do not use headings with similar content (3:1)'' (AtNode foo_upper)]"
    by (simp only: foo_upper_headings(3))
  have "remarkLintNoDuplicateHeadings cafe_doc = duplicate_verdicts [] [cafe_small, cafe_capital]"
    using duplicates_compared_in_upper_case [OF cafe_headings(1) [symmetric]]
    by (rule conjunct1)
  then have "remarkLintNoDuplicateHeadings cafe_doc =
      [message ''Do not use headings with similar content (1:1)'' (AtNode cafe_capital)]"
    by (simp only: cafe_headings(3))
  with foo foo_upper_headings(1,2) cafe_headings(1,2) show ?thesis by (intro conjI)
qed

text \<open>
  What the upper-case form does to the characters of the model: a small letter, accented
  or not, becomes its capital, the sharp s becomes two letters, and no other character
  changes.
\<close>

lemma toUpperCase_examples:
  "toUpperCase (''caf'' @ [CHR 0xE9]) = ''CAF'' @ [CHR 0xC9]"
  "toUpperCase (''stra'' @ [CHR 0xDF] @ ''e'') = ''STRASSE''"
  "toUpperCase [CHR 0xF7, CHR 0xD7, CHR 0xB5, CHR 0xFF] = [CHR 0xF7, CHR 0xD7, CHR 0xB5, CHR 0xFF]"
  "toUpperCase ''Heading 2: a-z'' = ''HEADING 2: A-Z''"
  by code_simp+

text \<open>
  C7. With three headings of which the first two are not generated and have the text
  \<^verbatim>\<open>Foo\<close>, and a third whose text in upper case is not \<^verbatim>\<open>FOO\<close>, the rule gives one message,
  on the second heading, naming the start of the first.
\<close>

theorem repeated_heading_reported_once:
  assumes "visit tree ''heading'' = [h1, h2, h3]"
    and "\<not> generated h1" and "\<not> generated h2"
    and "toString h1 = ''Foo''" and "toString h2 = ''Foo''"
    and "toUpperCase (toString h3) \<noteq> ''FOO''"
  shows "remarkLintNoDuplicateHeadings tree =
     [message (''Do not use headings with similar content ('' @
               stringifyPosition (pointStart h1) @ '')'') (AtNode h2)]"
  using assms
  by (cases "generated h3")
    (simp_all add: remarkLintNoDuplicateHeadings_def Let_def toUpperCase_Foo duplicate_message_def)

lemma foo_headings:
  "visit foo_doc ''heading'' = [foo_first, foo_second, bar_third]"
  "\<not> generated foo_first" "\<not> generated foo_second"
  "toString foo_first = ''Foo''" "toString foo_second = ''Foo''"
  "toUpperCase (toString bar_third) \<noteq> ''FOO''"
  "stringifyPosition (pointStart foo_first) = ''1:1''"
  by code_simp+

theorem repeated_heading_reported_once_witness:
  "visit foo_doc ''heading'' = [foo_first, foo_second, bar_third] \<and>
   \<not> generated foo_first \<and> \<not> generated foo_second \<and>
   toString foo_first = ''Foo'' \<and> toString foo_second = ''Foo'' \<and>
   toUpperCase (toString bar_third) \<noteq> ''FOO'' \<and>
   remarkLintNoDuplicateHeadings foo_doc =
     [message ''Do not use headings with similar content (1:1)'' (AtNode foo_second)]"
  using repeated_heading_reported_once [of foo_doc foo_first foo_second bar_third]
  by (simp add: foo_headings)

text \<open>
  The claim as it is written, for any third text other than \<^verbatim>\<open>Foo\<close>, fails when the third
  text is \<^verbatim>\<open>FOO\<close>: the third heading is reported too.
\<close>

theorem repeated_heading_counterexample:
  "map toString (visit foo_upper_doc ''heading'') = [''Foo'', ''Foo'', ''FOO''] \<and>
   remarkLintNoDuplicateHeadings foo_upper_doc =
     [message ''Do not use headings with similar content (1:1)'' (AtNode foo_second),
      message ''Do not use headings with similar content (3:1)'' (AtNode foo_upper)]"
  by code_simp

end
